theory Spec2Isabelle
  imports Main "HOL-Library.Word" "HOL-Library.Multiset"
begin

unbundle bit_operations_syntax

section \<open>Strings and exceptions\<close>

text \<open>
  A JavaScript string is a sequence of 16-bit code units. Names, titles and tokens are
  all values of this type; \<open>js\<close> writes an ASCII literal.
\<close>

type_synonym jschar = "16 word"
type_synonym jsstring = "jschar list"

definition js :: "string \<Rightarrow> jsstring" where
  "js s = map of_char s"

text \<open>
  The exceptions that the language and the platform functions throw. A function that may
  throw has a result of type \<open>exn + 'a\<close>, with \<open>Inl\<close> for the exception.
\<close>

datatype exn = InvalidCharacterError | URIError | SyntaxError | TypeError

section \<open>Allocation engine (utils/allocation)\<close>

subsection \<open>Objects used as dictionaries\<close>

text \<open>
  \<open>exclusions\<close> is a \<open>Record<string, string[]>\<close>, and the allocation built by the
  engine a \<open>Record<string, string>\<close>: ordinary objects. The allocation starts as the
  literal \<open>{}\<close>, whose prototype is \<open>Object.prototype\<close>. \<open>exclusions\<close> is taken
  to have the same prototype, as it has when the caller makes it (a \<open>{}\<close> filled by
  assignment under the participants' upper-case names) and when it comes from
  \<open>JSON.parse\<close>; its own properties hold arrays. \<open>Object.prototype\<close> is taken in its
  initial state. Each of the two objects is modelled by the dictionary of its own
  properties.
\<close>

type_synonym exclusions = "jsstring \<rightharpoonup> jsstring list"
type_synonym allocation = "jsstring \<rightharpoonup> jsstring"

text \<open>
  The names under which \<open>Object.prototype\<close> has a property (ECMA-262, 20.1.3 and the
  legacy accessors of B.2.2). Under \<open>__proto__\<close> it has an accessor, whose getter
  answers with the prototype of the object read and whose setter ignores a value that is
  neither an object nor \<open>null\<close>; under every other name it has a writable property
  holding a function.
\<close>

definition object_prototype_names :: "jsstring list" where
  "object_prototype_names =
     map js [''constructor'', ''hasOwnProperty'', ''isPrototypeOf'', ''propertyIsEnumerable'',
             ''toLocaleString'', ''toString'', ''valueOf'', ''__proto__'',
             ''__defineGetter__'', ''__defineSetter__'', ''__lookupGetter__'',
             ''__lookupSetter__'']"

text \<open>
  The value of \<open>exclusions[giver] || []\<close>. An own property holds an array, and every
  array, the empty one too, is truthy. Without an own property the read goes on to
  \<open>Object.prototype\<close>: under one of its names it finds a function, or the prototype
  object itself, which is truthy and is not an array (\<open>Inherited\<close>); under any other
  name it finds nothing, and the value is the new empty array.
\<close>

datatype excluded = Names "jsstring list" | Inherited

definition excluded_of :: "exclusions \<Rightarrow> jsstring \<Rightarrow> excluded" where
  "excluded_of ex giver =
     (case ex giver of
        Some l \<Rightarrow> Names l
      | None \<Rightarrow> if giver \<in> set object_prototype_names then Inherited else Names [])"

text \<open>
  \<open>excluded.includes(receiver)\<close> (line 33). Neither a function nor
  \<open>Object.prototype\<close> has a property \<open>includes\<close>, so on an inherited value the call
  is a call of \<open>undefined\<close>, a \<open>TypeError\<close>.
\<close>

fun array_includes :: "excluded \<Rightarrow> jsstring \<Rightarrow> exn + bool" where
  "array_includes (Names l) receiver = Inr (receiver \<in> set l)"
| "array_includes Inherited receiver = Inl TypeError"

text \<open>
  \<open>new Set([giver, ...excluded])\<close> (line 68). The spread of a value that is not iterable
  is a \<open>TypeError\<close>.
\<close>

fun giver_and :: "jsstring \<Rightarrow> excluded \<Rightarrow> exn + jsstring set" where
  "giver_and giver (Names l) = Inr (set (giver # l))"
| "giver_and giver Inherited = Inl TypeError"

text \<open>
  \<open>allocation[giver] = receiver\<close> on an object made by \<open>{}\<close>. The assignment creates
  or overwrites an own property, except under the name \<open>__proto__\<close>, where it calls the
  setter of \<open>Object.prototype\<close>; the receiver is a string, so the setter does nothing.
  \<open>delete allocation[giver]\<close> removes the own property, if there is one.
\<close>

definition set_property :: "allocation \<Rightarrow> jsstring \<Rightarrow> jsstring \<Rightarrow> allocation" where
  "set_property alloc giver receiver =
     (if giver = js ''__proto__'' then alloc else alloc(giver \<mapsto> receiver))"

definition delete_property :: "allocation \<Rightarrow> jsstring \<Rightarrow> allocation" where
  "delete_property alloc giver = alloc(giver := None)"

subsection \<open>Randomness\<close>

text \<open>
  The only source of randomness is \<open>xs.sort(() => Math.random() - 0.5)\<close>. Sorting with
  an inconsistent comparator leaves the order implementation-defined, but the array
  still holds the same elements. The model takes the outcomes as a parameter: \<open>sh k xs\<close>
  is the array that the \<open>k\<close>-th call of the program run leaves when it sorts \<open>xs\<close>.
  \<open>shuffler sh\<close> says that every outcome is a rearrangement of its input.
\<close>

type_synonym rand = "nat \<Rightarrow> jsstring list \<Rightarrow> jsstring list"

definition shuffler :: "rand \<Rightarrow> bool" where
  "shuffler sh = (\<forall>k xs. mset (sh k xs) = mset xs)"

subsection \<open>allocateSecretSanta\<close>

definition maxAttempts :: nat where
  "maxAttempts = 1000"

text \<open>
  The inner \<open>for\<close> loop of one trial (lines 21 to 39): \<open>Inr None\<close> is
  \<open>valid = false\<close> followed by \<open>break\<close>, \<open>Inr (Some allocation)\<close> is the loop
  running to its end, \<open>Inl TypeError\<close> is the exception of line 33, which nothing
  catches. \<open>shuffled\<close> is the sorted copy of \<open>participants\<close>, so \<open>shuffled[i]\<close>
  exists wherever \<open>participants[i]\<close> does.
\<close>

function trial_for ::
  "jsstring list \<Rightarrow> jsstring list \<Rightarrow> exclusions \<Rightarrow> nat \<Rightarrow> allocation
     \<Rightarrow> exn + allocation option"
where
  "trial_for participants shuffled ex i alloc =
     (if i < length participants then
        (let giver = participants ! i; receiver = shuffled ! i in
         if giver = receiver then Inr None
         else
           (let excluded = excluded_of ex giver in
            case array_includes excluded receiver of
              Inl e \<Rightarrow> Inl e
            | Inr True \<Rightarrow> Inr None
            | Inr False \<Rightarrow>
                trial_for participants shuffled ex (i + 1) (set_property alloc giver receiver)))
      else Inr (Some alloc))"
  by pat_completeness auto
termination
  by (relation "measure (\<lambda>(ps, sh, ex, i, a). length ps - i)") auto

declare trial_for.simps [simp del]

text \<open>
  The \<open>while\<close> loop (lines 16 to 46). The result is the pair of how the loop was left
  (\<open>Inr None\<close> when it ran out, \<open>Inr (Some allocation)\<close> at the \<open>return\<close> of line
  42, \<open>Inl\<close> an exception of the trial) and the value of \<open>attempts\<close> at that point.
  The \<open>attempts\<close>-th trial sorts its copy with the \<open>attempts\<close>-th outcome.
\<close>

function trial_while ::
  "rand \<Rightarrow> jsstring list \<Rightarrow> exclusions \<Rightarrow> nat \<Rightarrow> (exn + allocation option) \<times> nat"
where
  "trial_while sh participants ex attempts =
     (if attempts < maxAttempts then
        (case trial_for participants (sh attempts participants) ex 0 Map.empty of
           Inl e \<Rightarrow> (Inl e, attempts)
         | Inr (Some alloc) \<Rightarrow> (Inr (Some alloc), attempts)
         | Inr None \<Rightarrow> trial_while sh participants ex (attempts + 1))
      else (Inr None, attempts))"
  by pat_completeness auto
termination
  by (relation "measure (\<lambda>(sh, ps, ex, a). maxAttempts - a)") auto

declare trial_while.simps [simp del]

subsection \<open>allocateSystematic\<close>

text \<open>
  The closure \<open>backtrack\<close> mutates \<open>allocation\<close> and \<open>used\<close>; \<open>calls\<close> counts the
  sorts done so far in the run. An exception of line 68 leaves every active call of
  \<open>backtrack\<close> and \<open>allocateSystematic\<close> itself.
\<close>

record sys_state =
  allocation :: allocation
  used :: "jsstring set"
  calls :: nat

function backtrack ::
    "rand \<Rightarrow> jsstring list \<Rightarrow> exclusions \<Rightarrow> nat \<Rightarrow> sys_state \<Rightarrow> exn + bool \<times> sys_state"
  and candidates_for ::
    "rand \<Rightarrow> jsstring list \<Rightarrow> exclusions \<Rightarrow> nat \<Rightarrow> jsstring list \<Rightarrow> sys_state
       \<Rightarrow> exn + bool \<times> sys_state"
where
  "backtrack sh participants ex index s =
     (if index \<ge> length participants then Inr (True, s)
      else
        (let giver = participants ! index in
         case giver_and giver (excluded_of ex giver) of
           Inl e \<Rightarrow> Inl e
         | Inr excluded \<Rightarrow>
             (let candidates = sh (calls s)
                    (filter (\<lambda>p. p \<notin> excluded \<and> p \<notin> used s) participants)
              in candidates_for sh participants ex index candidates
                   (s\<lparr>calls := calls s + 1\<rparr>))))"
| "candidates_for sh participants ex index [] s = Inr (False, s)"
| "candidates_for sh participants ex index (receiver # rest) s =
     (let giver = participants ! index;
          s1 = s\<lparr>allocation := set_property (allocation s) giver receiver,
                 used := insert receiver (used s)\<rparr>
      in case backtrack sh participants ex (index + 1) s1 of
           Inl e \<Rightarrow> Inl e
         | Inr (True, s2) \<Rightarrow> Inr (True, s2)
         | Inr (False, s2) \<Rightarrow>
             candidates_for sh participants ex index rest
               (s2\<lparr>used := used s2 - {receiver},
                   allocation := delete_property (allocation s2) giver\<rparr>))"
  by pat_completeness auto
termination
  by (relation "measures
        [\<lambda>x. case x of
               Inl (sh, ps, ex, i, s) \<Rightarrow> (if length ps \<le> i then 0 else 2 * (length ps - i) + 2)
             | Inr (sh, ps, ex, i, cs, s) \<Rightarrow> 2 * (length ps - i) + 1,
         \<lambda>x. case x of
               Inl (sh, ps, ex, i, s) \<Rightarrow> 0
             | Inr (sh, ps, ex, i, cs, s) \<Rightarrow> length cs]") auto

declare backtrack.simps [simp del]

definition allocateSystematic ::
  "rand \<Rightarrow> nat \<Rightarrow> jsstring list \<Rightarrow> exclusions \<Rightarrow> exn + allocation option" where
  "allocateSystematic sh k participants ex =
     (case backtrack sh participants ex 0
             \<lparr>allocation = Map.empty, used = {}, calls = k\<rparr> of
        Inl e \<Rightarrow> Inl e
      | Inr (True, s) \<Rightarrow> Inr (Some (allocation s))
      | Inr (False, s) \<Rightarrow> Inr None)"

text \<open>
  \<open>allocateSecretSanta\<close>: the guard of lines 9 to 11, the trial loop, and the call of
  \<open>allocateSystematic\<close> of line 49. \<open>Inr None\<close> is \<open>null\<close>.
\<close>

definition allocateSecretSanta ::
  "rand \<Rightarrow> jsstring list \<Rightarrow> exclusions \<Rightarrow> exn + allocation option" where
  "allocateSecretSanta sh participants ex =
     (if length participants < 2 then Inr None
      else case trial_while sh participants ex 0 of
             (Inl e, attempts) \<Rightarrow> Inl e
           | (Inr (Some alloc), attempts) \<Rightarrow> Inr (Some alloc)
           | (Inr None, attempts) \<Rightarrow> allocateSystematic sh attempts participants ex)"

section \<open>Payload codec (utils/encoding.ts)\<close>

text \<open>
  \<open>SecretSantaPayload\<close>: an object with the four string properties \<open>t\<close>, \<open>d\<close>,
  \<open>g\<close> and \<open>r\<close>. \<open>JSON.stringify\<close> writes the properties of its argument in the
  order of the object's own keys, which for names like these is the order in which the
  properties were created. A payload is therefore the list of its properties, name and
  value, in that order; \<open>is_payload\<close> says that the properties are the four of the
  interface.
\<close>

type_synonym payload = "(jsstring \<times> jsstring) list"

definition payload_keys :: "jsstring list" where
  "payload_keys = map js [''t'', ''d'', ''g'', ''r'']"

definition is_payload :: "payload \<Rightarrow> bool" where
  "is_payload p = (length p = 4 \<and> set (map fst p) = set payload_keys)"

text \<open>
  The caller builds every payload as the object literal
  \<open>{t: title, d: description, g: name, r: allocation[name]}\<close> (EntryPage.tsx, lines 127
  to 132), which creates the properties in this order.
\<close>

definition payload_literal :: "jsstring \<Rightarrow> jsstring \<Rightarrow> jsstring \<Rightarrow> jsstring \<Rightarrow> payload" where
  "payload_literal title description giver receiver =
     [(js ''t'', title), (js ''d'', description), (js ''g'', giver), (js ''r'', receiver)]"

subsection \<open>Characters\<close>

text \<open>
  The platform functions \<open>JSON.stringify\<close>, \<open>JSON.parse\<close>, \<open>encodeURIComponent\<close>,
  \<open>decodeURIComponent\<close> (ECMA-262) and \<open>btoa\<close>, \<open>atob\<close> (HTML standard) are not code
  of the repository. They are written out here after their standards, on code units.
\<close>

definition is_lead :: "jschar \<Rightarrow> bool" where
  "is_lead c = (0xD800 \<le> c \<and> c \<le> 0xDBFF)"

definition is_trail :: "jschar \<Rightarrow> bool" where
  "is_trail c = (0xDC00 \<le> c \<and> c \<le> 0xDFFF)"

definition is_digit :: "jschar \<Rightarrow> bool" where
  "is_digit c = (0x30 \<le> c \<and> c \<le> 0x39)"

definition is_upper :: "jschar \<Rightarrow> bool" where
  "is_upper c = (0x41 \<le> c \<and> c \<le> 0x5A)"

definition is_lower :: "jschar \<Rightarrow> bool" where
  "is_lower c = (0x61 \<le> c \<and> c \<le> 0x7A)"

text \<open>Hexadecimal digits: written in lower case or upper case, read in both.\<close>

definition hex_lower :: "nat \<Rightarrow> jschar" where
  "hex_lower n = (if n < 10 then of_nat (0x30 + n) else of_nat (0x61 + (n - 10)))"

definition hex_upper :: "nat \<Rightarrow> jschar" where
  "hex_upper n = (if n < 10 then of_nat (0x30 + n) else of_nat (0x41 + (n - 10)))"

definition hex_value :: "jschar \<Rightarrow> nat option" where
  "hex_value c =
     (if is_digit c then Some (unat c - 0x30)
      else if 0x41 \<le> c \<and> c \<le> 0x46 then Some (unat c - 0x41 + 10)
      else if 0x61 \<le> c \<and> c \<le> 0x66 then Some (unat c - 0x61 + 10)
      else None)"

subsection \<open>JSON.stringify\<close>

text \<open>
  \<open>UnicodeEscape\<close>: \<open>\u\<close> and four lower-case hexadecimal digits.
\<close>

definition unicode_escape :: "jschar \<Rightarrow> jsstring" where
  "unicode_escape c =
     (let n = unat c in
      [0x5C, 0x75, hex_lower (n div 4096), hex_lower (n div 256 mod 16),
       hex_lower (n div 16 mod 16), hex_lower (n mod 16)])"

text \<open>
  One code unit that is not a surrogate, as \<open>QuoteJSONString\<close> writes it: the two-character
  escapes for backspace, tab, line feed, form feed, carriage return, the double quote and
  the backslash; \<open>UnicodeEscape\<close> for the other control characters; itself otherwise.
\<close>

definition quote_unit :: "jschar \<Rightarrow> jsstring" where
  "quote_unit c =
     (if c = 0x08 then [0x5C, 0x62]
      else if c = 0x09 then [0x5C, 0x74]
      else if c = 0x0A then [0x5C, 0x6E]
      else if c = 0x0C then [0x5C, 0x66]
      else if c = 0x0D then [0x5C, 0x72]
      else if c = 0x22 then [0x5C, 0x22]
      else if c = 0x5C then [0x5C, 0x5C]
      else if c < 0x20 then unicode_escape c
      else [c])"

text \<open>
  \<open>QuoteJSONString\<close> walks the code points of the string: a lead surrogate followed by a
  trail surrogate is one code point and is written as it is; a surrogate on its own is
  written with \<open>UnicodeEscape\<close>.
\<close>

fun quote_units :: "jsstring \<Rightarrow> jsstring" where
  "quote_units [] = []"
| "quote_units [c] =
     (if is_lead c \<or> is_trail c then unicode_escape c else quote_unit c)"
| "quote_units (c # c' # cs) =
     (if is_lead c then
        (if is_trail c' then c # c' # quote_units cs
         else unicode_escape c @ quote_units (c' # cs))
      else if is_trail c then unicode_escape c @ quote_units (c' # cs)
      else quote_unit c @ quote_units (c' # cs))"

definition QuoteJSONString :: "jsstring \<Rightarrow> jsstring" where
  "QuoteJSONString s = [0x22] @ quote_units s @ [0x22]"

text \<open>
  \<open>SerializeJSONObject\<close> without a gap: one member \<open>key:value\<close> for each property,
  in the order of the properties, the key quoted like the value; the members are
  separated by commas and stand between braces.
\<close>

definition json_member :: "jsstring \<times> jsstring \<Rightarrow> jsstring" where
  "json_member m = QuoteJSONString (fst m) @ js '':'' @ QuoteJSONString (snd m)"

fun comma_separated :: "jsstring list \<Rightarrow> jsstring" where
  "comma_separated [] = []"
| "comma_separated [x] = x"
| "comma_separated (x # y # ys) = x @ js '','' @ comma_separated (y # ys)"

definition JSON_stringify :: "payload \<Rightarrow> jsstring" where
  "JSON_stringify p = js ''{'' @ comma_separated (map json_member p) @ js ''}''"

subsection \<open>btoa and atob\<close>

text \<open>The Base64 alphabet: \<open>A-Z\<close>, \<open>a-z\<close>, \<open>0-9\<close>, \<open>+\<close>, \<open>/\<close>.\<close>

definition b64_char :: "nat \<Rightarrow> jschar" where
  "b64_char n =
     (if n < 26 then of_nat (0x41 + n)
      else if n < 52 then of_nat (0x61 + (n - 26))
      else if n < 62 then of_nat (0x30 + (n - 52))
      else if n = 62 then 0x2B
      else 0x2F)"

definition is_b64_char :: "jschar \<Rightarrow> bool" where
  "is_b64_char c = (is_upper c \<or> is_lower c \<or> is_digit c \<or> c = 0x2B \<or> c = 0x2F)"

definition b64_value :: "jschar \<Rightarrow> nat" where
  "b64_value c =
     (if is_upper c then unat c - 0x41
      else if is_lower c then unat c - 0x61 + 26
      else if is_digit c then unat c - 0x30 + 52
      else if c = 0x2B then 62
      else 63)"

fun base64_encode :: "nat list \<Rightarrow> jsstring" where
  "base64_encode [] = []"
| "base64_encode [a] =
     [b64_char (a div 4), b64_char (a mod 4 * 16), 0x3D, 0x3D]"
| "base64_encode [a, b] =
     [b64_char (a div 4), b64_char (a mod 4 * 16 + b div 16), b64_char (b mod 16 * 4), 0x3D]"
| "base64_encode (a # b # c # bs) =
     [b64_char (a div 4), b64_char (a mod 4 * 16 + b div 16),
      b64_char (b mod 16 * 4 + c div 64), b64_char (c mod 64)] @ base64_encode bs"

text \<open>
  \<open>btoa\<close> throws \<open>InvalidCharacterError\<close> when a code unit of its argument is above
  \<open>0xFF\<close>; otherwise each code unit is one byte.
\<close>

definition btoa :: "jsstring \<Rightarrow> exn + jsstring" where
  "btoa s =
     (if list_ex (\<lambda>c. 0xFF < c) s then Inl InvalidCharacterError
      else Inr (base64_encode (map unat s)))"

text \<open>
  \<open>atob\<close> is the forgiving Base64 decoding: ASCII whitespace is removed; when the length
  is then a multiple of 4, one or two \<open>=\<close> at the end are removed; a length of 1 modulo
  4 and a character outside the alphabet are errors; a group of two or three characters
  at the end gives one or two bytes, its spare bits dropped.
\<close>

definition is_ascii_whitespace :: "jschar \<Rightarrow> bool" where
  "is_ascii_whitespace c = (c = 0x09 \<or> c = 0x0A \<or> c = 0x0C \<or> c = 0x0D \<or> c = 0x20)"

definition strip_padding :: "jsstring \<Rightarrow> jsstring" where
  "strip_padding s =
     (if s \<noteq> [] \<and> last s = 0x3D then
        (if butlast s \<noteq> [] \<and> last (butlast s) = 0x3D then butlast (butlast s)
         else butlast s)
      else s)"

fun base64_decode :: "nat list \<Rightarrow> nat list" where
  "base64_decode (a # b # c # e # rest) =
     [a * 4 + b div 16, b mod 16 * 16 + c div 4, c mod 4 * 64 + e] @ base64_decode rest"
| "base64_decode [a, b, c] = [a * 4 + b div 16, b mod 16 * 16 + c div 4]"
| "base64_decode [a, b] = [a * 4 + b div 16]"
| "base64_decode [a] = []"
| "base64_decode [] = []"

definition atob :: "jsstring \<Rightarrow> exn + jsstring" where
  "atob data =
     (let s1 = filter (\<lambda>c. \<not> is_ascii_whitespace c) data;
          s2 = (if length s1 mod 4 = 0 then strip_padding s1 else s1)
      in if length s2 mod 4 = 1 then Inl InvalidCharacterError
         else if \<not> list_all is_b64_char s2 then Inl InvalidCharacterError
         else Inr (map of_nat (base64_decode (map b64_value s2))))"

subsection \<open>encodeURIComponent and decodeURIComponent\<close>

text \<open>
  The characters that \<open>encodeURIComponent\<close> leaves alone: letters, digits and
  \<open>- _ . ! ~ * ' ( )\<close>.
\<close>

definition is_unreserved :: "jschar \<Rightarrow> bool" where
  "is_unreserved c =
     (is_upper c \<or> is_lower c \<or> is_digit c \<or>
      c \<in> set [0x2D, 0x5F, 0x2E, 0x21, 0x7E, 0x2A, 0x27, 0x28, 0x29])"

definition percent :: "nat \<Rightarrow> jsstring" where
  "percent b = [0x25, hex_upper (b div 16), hex_upper (b mod 16)]"

definition utf8_octets :: "nat \<Rightarrow> nat list" where
  "utf8_octets v =
     (if v < 0x80 then [v]
      else if v < 0x800 then [0xC0 + v div 64, 0x80 + v mod 64]
      else if v < 0x10000 then [0xE0 + v div 4096, 0x80 + v div 64 mod 64, 0x80 + v mod 64]
      else [0xF0 + v div 262144, 0x80 + v div 4096 mod 64, 0x80 + v div 64 mod 64,
            0x80 + v mod 64])"

definition pair_code_point :: "jschar \<Rightarrow> jschar \<Rightarrow> nat" where
  "pair_code_point c c' = (unat c - 0xD800) * 0x400 + (unat c' - 0xDC00) + 0x10000"

fun prepend :: "jsstring \<Rightarrow> exn + jsstring \<Rightarrow> exn + jsstring" where
  "prepend s (Inl e) = Inl e"
| "prepend s (Inr rest) = Inr (s @ rest)"

text \<open>
  \<open>Encode\<close>: an unreserved code unit is kept; any other code point is written as the
  percent escapes of its UTF-8 octets; a surrogate without its partner is a \<open>URIError\<close>.
\<close>

fun encodeURIComponent :: "jsstring \<Rightarrow> exn + jsstring" where
  "encodeURIComponent [] = Inr []"
| "encodeURIComponent [c] =
     (if is_unreserved c then Inr [c]
      else if is_lead c \<or> is_trail c then Inl URIError
      else Inr (concat (map percent (utf8_octets (unat c)))))"
| "encodeURIComponent (c # c' # cs) =
     (if is_unreserved c then prepend [c] (encodeURIComponent (c' # cs))
      else if is_trail c then Inl URIError
      else if is_lead c then
        (if is_trail c' then
           prepend (concat (map percent (utf8_octets (pair_code_point c c'))))
             (encodeURIComponent cs)
         else Inl URIError)
      else prepend (concat (map percent (utf8_octets (unat c))))
             (encodeURIComponent (c' # cs)))"

definition hex_octet :: "jschar \<Rightarrow> jschar \<Rightarrow> nat option" where
  "hex_octet h1 h2 =
     (case (hex_value h1, hex_value h2) of
        (Some a, Some b) \<Rightarrow> Some (a * 16 + b)
      | _ \<Rightarrow> None)"

text \<open>The next \<open>n\<close> percent escapes of a multi-byte sequence, and what follows them.\<close>

fun pct_octets :: "nat \<Rightarrow> jsstring \<Rightarrow> (nat list \<times> jsstring) option" where
  "pct_octets 0 s = Some ([], s)"
| "pct_octets (Suc n) (p # h1 # h2 # s) =
     (if p = 0x25 then
        (case hex_octet h1 h2 of
           None \<Rightarrow> None
         | Some b \<Rightarrow>
             (case pct_octets n s of
                None \<Rightarrow> None
              | Some (bs, rest) \<Rightarrow> Some (b # bs, rest)))
      else None)"
| "pct_octets (Suc n) s = None"

definition is_continuation :: "nat \<Rightarrow> bool" where
  "is_continuation b = (0x80 \<le> b \<and> b < 0xC0)"

text \<open>
  The code point of a UTF-8 sequence of two, three or four octets, when the sequence is
  valid: continuation octets in place, no overlong form, no surrogate, at most
  \<open>0x10FFFF\<close>.
\<close>

fun utf8_code_point :: "nat list \<Rightarrow> nat option" where
  "utf8_code_point [b0, b1] =
     (let v = b0 mod 32 * 64 + b1 mod 64
      in if is_continuation b1 \<and> 0x80 \<le> v then Some v else None)"
| "utf8_code_point [b0, b1, b2] =
     (let v = b0 mod 16 * 4096 + b1 mod 64 * 64 + b2 mod 64
      in if is_continuation b1 \<and> is_continuation b2 \<and> 0x800 \<le> v \<and>
            \<not> (0xD800 \<le> v \<and> v \<le> 0xDFFF)
         then Some v else None)"
| "utf8_code_point [b0, b1, b2, b3] =
     (let v = b0 mod 8 * 262144 + b1 mod 64 * 4096 + b2 mod 64 * 64 + b3 mod 64
      in if is_continuation b1 \<and> is_continuation b2 \<and> is_continuation b3 \<and>
            0x10000 \<le> v \<and> v \<le> 0x10FFFF
         then Some v else None)"
| "utf8_code_point bs = None"

definition utf16_units :: "nat \<Rightarrow> jsstring" where
  "utf16_units v =
     (if v < 0x10000 then [of_nat v]
      else [of_nat (0xD800 + (v - 0x10000) div 0x400), of_nat (0xDC00 + (v - 0x10000) mod 0x400)])"

text \<open>How many octets follow a first octet: 1 for \<open>110xxxxx\<close>, 2 for \<open>1110xxxx\<close>, 3 for \<open>11110xxx\<close>.\<close>

definition following_octets :: "nat \<Rightarrow> nat" where
  "following_octets b = (if b < 0xE0 then 1 else if b < 0xF0 then 2 else 3)"

lemma pct_octets_length:
  "pct_octets n s = Some (bs, rest) \<Longrightarrow> length rest \<le> length s"
proof (induction n s arbitrary: bs rest rule: pct_octets.induct)
  case (2 n p h1 h2 s)
  from "2.prems" obtain b bs' where b: "hex_octet h1 h2 = Some b"
    and sub: "pct_octets n s = Some (bs', rest)" and p: "p = 0x25"
    by (auto split: if_splits option.splits)
  from "2.IH"[OF p b sub] show ?case by simp
qed simp_all

text \<open>
  \<open>Decode\<close> with nothing preserved: a code unit other than \<open>%\<close> is kept; \<open>%\<close> needs
  two hexadecimal digits; an octet below \<open>0x80\<close> is its character; an octet that starts a
  multi-byte sequence needs the rest of the sequence as percent escapes, and the sequence
  must be valid UTF-8. Everything else is a \<open>URIError\<close>.
\<close>

function decodeURIComponent :: "jsstring \<Rightarrow> exn + jsstring" where
  "decodeURIComponent [] = Inr []"
| "decodeURIComponent (c # cs) =
     (if c \<noteq> 0x25 then prepend [c] (decodeURIComponent cs)
      else
        (case cs of
           h1 # h2 # rest \<Rightarrow>
             (case hex_octet h1 h2 of
                None \<Rightarrow> Inl URIError
              | Some b \<Rightarrow>
                  if b < 0x80 then prepend [of_nat b] (decodeURIComponent rest)
                  else if b < 0xC0 \<or> 0xF8 \<le> b then Inl URIError
                  else
                    (case pct_octets (following_octets b) rest of
                       None \<Rightarrow> Inl URIError
                     | Some (bs, rest') \<Rightarrow>
                         (case utf8_code_point (b # bs) of
                            None \<Rightarrow> Inl URIError
                          | Some v \<Rightarrow> prepend (utf16_units v) (decodeURIComponent rest'))))
         | _ \<Rightarrow> Inl URIError))"
  by pat_completeness auto
termination
  by (relation "measure length") (auto dest: pct_octets_length)

declare decodeURIComponent.simps [simp del]

subsection \<open>JSON.parse\<close>

text \<open>
  A parsed value. A number keeps the text it was written with (its numeric value plays no
  part here). An object keeps its members in the order of the text; a key written twice
  has the value written last, so a property is read from the end.
\<close>

datatype json =
    JNull
  | JBool bool
  | JNumber jsstring
  | JString jsstring
  | JArray "json list"
  | JObject "(jsstring \<times> json) list"

datatype token =
    TLBrace | TRBrace | TLBracket | TRBracket | TColon | TComma
  | TString jsstring | TNumber jsstring | TTrue | TFalse | TNull

text \<open>The character after a backslash, for the two-character escapes of a JSON string.\<close>

definition simple_escape :: "jschar \<Rightarrow> jschar option" where
  "simple_escape e =
     (if e = 0x22 then Some 0x22
      else if e = 0x5C then Some 0x5C
      else if e = 0x2F then Some 0x2F
      else if e = 0x62 then Some 0x08
      else if e = 0x66 then Some 0x0C
      else if e = 0x6E then Some 0x0A
      else if e = 0x72 then Some 0x0D
      else if e = 0x74 then Some 0x09
      else None)"

definition hex4 :: "jschar \<Rightarrow> jschar \<Rightarrow> jschar \<Rightarrow> jschar \<Rightarrow> jschar option" where
  "hex4 h1 h2 h3 h4 =
     (case (hex_value h1, hex_value h2, hex_value h3, hex_value h4) of
        (Some a, Some b, Some c, Some e) \<Rightarrow> Some (of_nat (a * 4096 + b * 256 + c * 16 + e))
      | _ \<Rightarrow> None)"

fun cons_string :: "jschar \<Rightarrow> (jsstring \<times> jsstring) option \<Rightarrow> (jsstring \<times> jsstring) option"
where
  "cons_string c None = None"
| "cons_string c (Some (s, rest)) = Some (c # s, rest)"

text \<open>
  A string after its opening quote: the characters up to the closing quote, escapes
  resolved, and the text after the closing quote. A raw control character, an unknown
  escape and a missing closing quote are errors.
\<close>

fun lex_string :: "jsstring \<Rightarrow> (jsstring \<times> jsstring) option" where
  "lex_string [] = None"
| "lex_string (c # cs) =
     (if c = 0x22 then Some ([], cs)
      else if c = 0x5C then
        (case cs of
           [] \<Rightarrow> None
         | e # es \<Rightarrow>
             if e = 0x75 then
               (case es of
                  h1 # h2 # h3 # h4 # rest \<Rightarrow>
                    (case hex4 h1 h2 h3 h4 of
                       None \<Rightarrow> None
                     | Some u \<Rightarrow> cons_string u (lex_string rest))
                | _ \<Rightarrow> None)
             else
               (case simple_escape e of
                  None \<Rightarrow> None
                | Some u \<Rightarrow> cons_string u (lex_string es)))
      else if c < 0x20 then None
      else cons_string c (lex_string cs))"

text \<open>
  A number: an optional minus, \<open>0\<close> or a digit from 1 to 9 with more digits, an
  optional fraction, an optional exponent. The result is its text and what follows.
\<close>

definition lex_digits :: "jsstring \<Rightarrow> (jsstring \<times> jsstring) option" where
  "lex_digits s =
     (if takeWhile is_digit s = [] then None
      else Some (takeWhile is_digit s, dropWhile is_digit s))"

definition lex_int :: "jsstring \<Rightarrow> (jsstring \<times> jsstring) option" where
  "lex_int s =
     (case s of
        [] \<Rightarrow> None
      | c # cs \<Rightarrow>
          if c = 0x30 then Some ([c], cs)
          else if is_digit c then Some (c # takeWhile is_digit cs, dropWhile is_digit cs)
          else None)"

definition lex_frac :: "jsstring \<Rightarrow> (jsstring \<times> jsstring) option" where
  "lex_frac s =
     (case s of
        c # cs \<Rightarrow>
          if c = 0x2E then
            (case lex_digits cs of None \<Rightarrow> None | Some (ds, rest) \<Rightarrow> Some (c # ds, rest))
          else Some ([], s)
      | [] \<Rightarrow> Some ([], s))"

definition lex_exp :: "jsstring \<Rightarrow> (jsstring \<times> jsstring) option" where
  "lex_exp s =
     (case s of
        c # cs \<Rightarrow>
          if c = 0x65 \<or> c = 0x45 then
            (case cs of
               sg # cs' \<Rightarrow>
                 if sg = 0x2B \<or> sg = 0x2D then
                   (case lex_digits cs' of
                      None \<Rightarrow> None
                    | Some (ds, rest) \<Rightarrow> Some (c # sg # ds, rest))
                 else
                   (case lex_digits cs of
                      None \<Rightarrow> None
                    | Some (ds, rest) \<Rightarrow> Some (c # ds, rest))
             | [] \<Rightarrow> None)
          else Some ([], s)
      | [] \<Rightarrow> Some ([], s))"

definition lex_number :: "jsstring \<Rightarrow> (jsstring \<times> jsstring) option" where
  "lex_number s =
     (let (sign, s0) = (case s of c # cs \<Rightarrow> if c = 0x2D then ([c], cs) else ([], s)
                                 | [] \<Rightarrow> ([], s))
      in case lex_int s0 of
           None \<Rightarrow> None
         | Some (i, s1) \<Rightarrow>
             (case lex_frac s1 of
                None \<Rightarrow> None
              | Some (f, s2) \<Rightarrow>
                  (case lex_exp s2 of
                     None \<Rightarrow> None
                   | Some (e, s3) \<Rightarrow> Some (sign @ i @ f @ e, s3))))"

definition is_json_whitespace :: "jschar \<Rightarrow> bool" where
  "is_json_whitespace c = (c = 0x09 \<or> c = 0x0A \<or> c = 0x0D \<or> c = 0x20)"

fun cons_token :: "token \<Rightarrow> token list option \<Rightarrow> token list option" where
  "cons_token tk None = None"
| "cons_token tk (Some tks) = Some (tk # tks)"

lemma cons_string_Some:
  "cons_string u r = Some (x, rest) \<longleftrightarrow> (\<exists>y. r = Some (y, rest) \<and> x = u # y)"
  by (cases r) auto

lemma lex_string_length:
  "lex_string s = Some (x, rest) \<Longrightarrow> length rest < length s"
proof (induction s arbitrary: x rest rule: lex_string.induct)
  case 1
  then show ?case by simp
next
  case (2 c cs)
  show ?case
  proof (cases "c = 0x22")
    case True
    then show ?thesis using "2.prems" by simp
  next
    case nq: False
    show ?thesis
    proof (cases "c = 0x5C")
      case nb: False
      then have nc: "\<not> c < 0x20" and "cons_string c (lex_string cs) = Some (x, rest)"
        using "2.prems" nq by (simp_all split: if_splits)
      then obtain y where "lex_string cs = Some (y, rest)"
        unfolding cons_string_Some by blast
      from "2.IH"(3)[OF nq nb nc this] show ?thesis by simp
    next
      case bs: True
      show ?thesis
      proof (cases cs)
        case Nil
        then show ?thesis using "2.prems" nq bs by simp
      next
        case cs: (Cons e es)
        show ?thesis
        proof (cases "e = 0x75")
          case nu: False
          have eq: "lex_string (c # cs) =
              (case simple_escape e of None \<Rightarrow> None | Some u \<Rightarrow> cons_string u (lex_string es))"
            using nq bs cs nu by simp
          then obtain u y where u: "simple_escape e = Some u"
            and y: "lex_string es = Some (y, rest)"
            using "2.prems" unfolding eq cons_string_Some
            by (cases "simple_escape e") (auto simp: cons_string_Some)
          from "2.IH"(2)[OF nq bs cs nu u y] show ?thesis using cs by simp
        next
          case isu: True
          show ?thesis
          proof (cases es)
            case Nil
            then show ?thesis using "2.prems" nq bs cs isu by simp
          next
            case e1: (Cons h1 es1)
            show ?thesis
            proof (cases es1)
              case Nil
              then show ?thesis using "2.prems" nq bs cs isu e1 by simp
            next
              case e2: (Cons h2 es2)
              show ?thesis
              proof (cases es2)
                case Nil
                then show ?thesis using "2.prems" nq bs cs isu e1 e2 by simp
              next
                case e3: (Cons h3 es3)
                show ?thesis
                proof (cases es3)
                  case Nil
                  then show ?thesis using "2.prems" nq bs cs isu e1 e2 e3 by simp
                next
                  case e4: (Cons h4 r)
                  have es: "es = h1 # h2 # h3 # h4 # r" using e1 e2 e3 e4 by simp
                  have eq: "lex_string (c # cs) =
                    (case hex4 h1 h2 h3 h4 of None \<Rightarrow> None
                     | Some u \<Rightarrow> cons_string u (lex_string r))"
                    using nq bs cs isu es by simp
                  then obtain u y where u: "hex4 h1 h2 h3 h4 = Some u"
                    and y: "lex_string r = Some (y, rest)"
                    using "2.prems" unfolding eq
                    by (cases "hex4 h1 h2 h3 h4") (auto simp: cons_string_Some)
                  from "2.IH"(1)[OF nq bs cs isu e1 e2 e3 e4 u y] show ?thesis using cs es by simp
                qed
              qed
            qed
          qed
        qed
      qed
    qed
  qed
qed

lemma lex_digits_length: "lex_digits s = Some (x, rest) \<Longrightarrow> length rest \<le> length s"
  by (auto simp: lex_digits_def length_dropWhile_le split: if_splits)

lemma lex_number_length:
  assumes "lex_number s = Some (x, rest)"
  shows "length rest \<le> length s"
proof -
  obtain sign s0 where s0: "(case s of c # cs \<Rightarrow> if c = 0x2D then ([c], cs) else ([], s)
                                 | [] \<Rightarrow> ([], s)) = (sign, s0)"
    by (cases "(case s of c # cs \<Rightarrow> if c = 0x2D then ([c], cs) else ([], s) | [] \<Rightarrow> ([], s))")
  then have l0: "length s0 \<le> length s" by (auto split: list.splits if_splits)
  from assms s0 obtain i s1 f s2 e where i: "lex_int s0 = Some (i, s1)"
    and f: "lex_frac s1 = Some (f, s2)" and e: "lex_exp s2 = Some (e, rest)"
    by (auto simp: lex_number_def split: option.splits)
  have l1: "length s1 \<le> length s0"
    using i by (auto simp: lex_int_def length_dropWhile_le le_SucI split: list.splits if_splits)
  have l2: "length s2 \<le> length s1"
    using f by (auto simp: lex_frac_def le_SucI split: list.splits if_splits option.splits
                  dest!: lex_digits_length)
  have l3: "length rest \<le> length s2"
    using e by (auto simp: lex_exp_def le_SucI split: list.splits if_splits option.splits
                  dest!: lex_digits_length)
  show ?thesis using l0 l1 l2 l3 by simp
qed

lemma lex_number_nonempty:
  assumes "lex_number s = Some (x, rest)"
  shows "length rest < length s"
proof -
  obtain sign s0 where s0: "(case s of c # cs \<Rightarrow> if c = 0x2D then ([c], cs) else ([], s)
                                 | [] \<Rightarrow> ([], s)) = (sign, s0)"
    by (cases "(case s of c # cs \<Rightarrow> if c = 0x2D then ([c], cs) else ([], s) | [] \<Rightarrow> ([], s))")
  then have l0: "length s0 \<le> length s" by (auto split: list.splits if_splits)
  from assms s0 obtain i s1 f s2 e where i: "lex_int s0 = Some (i, s1)"
    and f: "lex_frac s1 = Some (f, s2)" and e: "lex_exp s2 = Some (e, rest)"
    by (auto simp: lex_number_def split: option.splits)
  have l1: "length s1 < length s0"
    using i by (auto simp: lex_int_def length_dropWhile_le less_Suc_eq_le split: list.splits if_splits)
  have l2: "length s2 \<le> length s1"
    using f by (auto simp: lex_frac_def le_SucI split: list.splits if_splits option.splits
                  dest!: lex_digits_length)
  have l3: "length rest \<le> length s2"
    using e by (auto simp: lex_exp_def le_SucI split: list.splits if_splits option.splits
                  dest!: lex_digits_length)
  show ?thesis using l0 l1 l2 l3 by simp
qed

text \<open>
  The tokens of a JSON text. White space may stand between any two tokens; a character
  that starts no token is an error.
\<close>

function lex :: "jsstring \<Rightarrow> token list option" where
  "lex [] = Some []"
| "lex (c # cs) =
     (if is_json_whitespace c then lex cs
      else if c = 0x7B then cons_token TLBrace (lex cs)
      else if c = 0x7D then cons_token TRBrace (lex cs)
      else if c = 0x5B then cons_token TLBracket (lex cs)
      else if c = 0x5D then cons_token TRBracket (lex cs)
      else if c = 0x3A then cons_token TColon (lex cs)
      else if c = 0x2C then cons_token TComma (lex cs)
      else if c = 0x22 then
        (case lex_string cs of
           None \<Rightarrow> None
         | Some (s, rest) \<Rightarrow> cons_token (TString s) (lex rest))
      else if c = 0x2D \<or> is_digit c then
        (case lex_number (c # cs) of
           None \<Rightarrow> None
         | Some (n, rest) \<Rightarrow> cons_token (TNumber n) (lex rest))
      else if take 4 (c # cs) = js ''true'' then cons_token TTrue (lex (drop 3 cs))
      else if take 5 (c # cs) = js ''false'' then cons_token TFalse (lex (drop 4 cs))
      else if take 4 (c # cs) = js ''null'' then cons_token TNull (lex (drop 3 cs))
      else None)"
  by pat_completeness auto
termination
  by (relation "measure length")
     (auto dest: lex_string_length lex_number_nonempty simp: less_Suc_eq_le)

declare lex.simps [simp del]

text \<open>
  The grammar over the tokens, read with a stack of the arrays and objects that are still
  open. An open array holds its elements so far; an open object holds its members so far
  and the key that waits for its value; both in reverse.
\<close>

datatype frame = InArray "json list" | InObject "(jsstring \<times> json) list" jsstring

datatype expecting =
    Value         \<comment> \<open>a value must come\<close>
  | ValueOrEnd    \<comment> \<open>after \<open>[\<close>: a value or \<open>]\<close>\<close>
  | KeyOrEnd      \<comment> \<open>after \<open>{\<close>: a key or \<open>}\<close>\<close>
  | Key           \<comment> \<open>after a comma in an object: a key\<close>
  | Colon         \<comment> \<open>after a key\<close>
  | CommaOrEnd    \<comment> \<open>after a value in an array or object\<close>
  | Done json     \<comment> \<open>the text's value is complete\<close>

type_synonym parser = "frame list \<times> expecting"

fun push_value :: "json \<Rightarrow> frame list \<Rightarrow> parser" where
  "push_value v [] = ([], Done v)"
| "push_value v (InArray vs # st) = (InArray (v # vs) # st, CommaOrEnd)"
| "push_value v (InObject kvs k # st) = (InObject ((k, v) # kvs) k # st, CommaOrEnd)"

fun close_array :: "frame list \<Rightarrow> parser option" where
  "close_array (InArray vs # st) = Some (push_value (JArray (rev vs)) st)"
| "close_array st = None"

fun close_object :: "frame list \<Rightarrow> parser option" where
  "close_object (InObject kvs k # st) = Some (push_value (JObject (rev kvs)) st)"
| "close_object st = None"

fun set_key :: "jsstring \<Rightarrow> frame list \<Rightarrow> parser option" where
  "set_key k (InObject kvs k' # st) = Some (InObject kvs k # st, Colon)"
| "set_key k st = None"

fun start_value :: "frame list \<Rightarrow> token \<Rightarrow> parser option" where
  "start_value st TLBracket = Some (InArray [] # st, ValueOrEnd)"
| "start_value st TLBrace = Some (InObject [] [] # st, KeyOrEnd)"
| "start_value st (TString s) = Some (push_value (JString s) st)"
| "start_value st (TNumber n) = Some (push_value (JNumber n) st)"
| "start_value st TTrue = Some (push_value (JBool True) st)"
| "start_value st TFalse = Some (push_value (JBool False) st)"
| "start_value st TNull = Some (push_value JNull st)"
| "start_value st tk = None"

fun parse_step :: "parser \<Rightarrow> token \<Rightarrow> parser option" where
  "parse_step (st, Value) tk = start_value st tk"
| "parse_step (st, ValueOrEnd) tk =
     (if tk = TRBracket then close_array st else start_value st tk)"
| "parse_step (st, KeyOrEnd) tk =
     (case tk of TString k \<Rightarrow> set_key k st | TRBrace \<Rightarrow> close_object st | _ \<Rightarrow> None)"
| "parse_step (st, Key) tk =
     (case tk of TString k \<Rightarrow> set_key k st | _ \<Rightarrow> None)"
| "parse_step (st, Colon) tk = (if tk = TColon then Some (st, Value) else None)"
| "parse_step (st, CommaOrEnd) tk =
     (case st of
        InArray vs # st' \<Rightarrow>
          (if tk = TComma then Some (st, Value)
           else if tk = TRBracket then close_array st
           else None)
      | InObject kvs k # st' \<Rightarrow>
          (if tk = TComma then Some (st, Key)
           else if tk = TRBrace then close_object st
           else None)
      | [] \<Rightarrow> None)"
| "parse_step (st, Done v) tk = None"

fun parse_tokens :: "parser \<Rightarrow> token list \<Rightarrow> json option" where
  "parse_tokens (st, e) [] = (case (st, e) of ([], Done v) \<Rightarrow> Some v | _ \<Rightarrow> None)"
| "parse_tokens p (tk # tks) =
     (case parse_step p tk of None \<Rightarrow> None | Some p' \<Rightarrow> parse_tokens p' tks)"

text \<open>\<open>JSON.parse\<close> without a reviver: a text that is not JSON is a \<open>SyntaxError\<close>.\<close>

definition JSON_parse :: "jsstring \<Rightarrow> exn + json" where
  "JSON_parse text =
     (case lex text of
        None \<Rightarrow> Inl SyntaxError
      | Some tks \<Rightarrow>
          (case parse_tokens ([], Value) tks of
             None \<Rightarrow> Inl SyntaxError
           | Some v \<Rightarrow> Inr v))"

subsection \<open>Property reads\<close>

text \<open>
  \<open>payload.t\<close> on a parsed value. Reading a property of \<open>null\<close> throws a
  \<open>TypeError\<close>. An object gives the value of its own property of that name, the one
  written last; without one the read gives \<open>undefined\<close>, here \<open>None\<close>, since
  \<open>Object.prototype\<close> has no property \<open>t\<close>, \<open>d\<close>, \<open>g\<close> or \<open>r\<close>. The same holds
  for an array, a string, a number and a boolean, whose prototypes have none either: the
  model is for these four names.
\<close>

fun get_property :: "json \<Rightarrow> jsstring \<Rightarrow> exn + json option" where
  "get_property JNull key = Inl TypeError"
| "get_property (JObject kvs) key = Inr (map_of (rev kvs) key)"
| "get_property v key = Inr None"

text \<open>\<open>typeof x === 'string'\<close> for the result of a property read.\<close>

fun is_string :: "json option \<Rightarrow> bool" where
  "is_string (Some (JString s)) = True"
| "is_string v = False"

text \<open>\<open>typeof payload.k === 'string'\<close>: the read may throw.\<close>

definition typeof_string :: "json \<Rightarrow> string \<Rightarrow> exn + bool" where
  "typeof_string payload key =
     (case get_property payload (js key) of
        Inl e \<Rightarrow> Inl e
      | Inr v \<Rightarrow> Inr (is_string v))"

text \<open>\<open>a && b\<close>, where \<open>b\<close> is evaluated only when \<open>a\<close> is true and either may throw.\<close>

definition and_then :: "exn + bool \<Rightarrow> exn + bool \<Rightarrow> exn + bool" where
  "and_then a b = (case a of Inl e \<Rightarrow> Inl e | Inr False \<Rightarrow> Inr False | Inr True \<Rightarrow> b)"

subsection \<open>encodePayload and decodePayload\<close>

text \<open>
  \<open>encodePayload\<close>: \<open>json.split('').reverse().join('')\<close> splits into code units, so
  it is \<open>rev\<close>. \<open>btoa\<close> may throw, and nothing catches it.
\<close>

definition encodePayload :: "payload \<Rightarrow> exn + jsstring" where
  "encodePayload p =
     (let json = JSON_stringify p;
          reversed = rev json
      in case btoa reversed of
           Inl e \<Rightarrow> Inl e
         | Inr base64 \<Rightarrow> encodeURIComponent base64)"

text \<open>
  The body of the \<open>try\<close> block of \<open>decodePayload\<close>: \<open>Inl\<close> is an exception thrown
  inside it, \<open>Inr\<close> is what it returns, the parsed value or \<open>null\<close>.
\<close>

definition decode_try :: "jsstring \<Rightarrow> exn + json option" where
  "decode_try encoded =
     (case decodeURIComponent encoded of
        Inl e \<Rightarrow> Inl e
      | Inr urlDecoded \<Rightarrow>
          (case atob urlDecoded of
             Inl e \<Rightarrow> Inl e
           | Inr base64Decoded \<Rightarrow>
               (let reversed = rev base64Decoded
                in case JSON_parse reversed of
                     Inl e \<Rightarrow> Inl e
                   | Inr payload \<Rightarrow>
                       (case and_then (typeof_string payload ''t'')
                               (and_then (typeof_string payload ''d'')
                                 (and_then (typeof_string payload ''g'')
                                   (typeof_string payload ''r''))) of
                          Inl e \<Rightarrow> Inl e
                        | Inr True \<Rightarrow> Inr (Some payload)
                        | Inr False \<Rightarrow> Inr None))))"

text \<open>\<open>decodePayload\<close>: the \<open>catch\<close> turns every exception of the body into \<open>null\<close>.\<close>

definition decodePayload :: "jsstring \<Rightarrow> json option" where
  "decodePayload encoded =
     (case decode_try encoded of
        Inl error \<Rightarrow> None
      | Inr result \<Rightarrow> result)"

section \<open>The allocation engine on a store\<close>

text \<open>
  Arrays, records and sets are objects that the caller and the engine share by
  reference: \<open>sort\<close> reorders the array it is called on, and an assignment to a
  property changes the object for everyone who holds it. To say what a call leaves of
  its arguments, the engine is written once more over a store of objects at addresses.
  \<open>next_addr\<close> is the address that the next new object gets.
\<close>

type_synonym addr = nat

datatype obj =
    Arr "jsstring list"            \<comment> \<open>\<open>string[]\<close>\<close>
  | Excl "jsstring \<rightharpoonup> addr"         \<comment> \<open>\<open>Record<string, string[]>\<close>: names to arrays\<close>
  | Rec "jsstring \<rightharpoonup> jsstring"      \<comment> \<open>\<open>Record<string, string>\<close>\<close>
  | StrSet "jsstring set"          \<comment> \<open>\<open>Set<string>\<close>\<close>

record store =
  objs :: "addr \<rightharpoonup> obj"
  next_addr :: addr

definition array_at :: "store \<Rightarrow> addr \<Rightarrow> jsstring list" where
  "array_at h a = (case objs h a of Some (Arr xs) \<Rightarrow> xs | _ \<Rightarrow> [])"

definition excl_at :: "store \<Rightarrow> addr \<Rightarrow> (jsstring \<rightharpoonup> addr)" where
  "excl_at h a = (case objs h a of Some (Excl m) \<Rightarrow> m | _ \<Rightarrow> Map.empty)"

definition rec_at :: "store \<Rightarrow> addr \<Rightarrow> (jsstring \<rightharpoonup> jsstring)" where
  "rec_at h a = (case objs h a of Some (Rec m) \<Rightarrow> m | _ \<Rightarrow> Map.empty)"

definition set_at :: "store \<Rightarrow> addr \<Rightarrow> jsstring set" where
  "set_at h a = (case objs h a of Some (StrSet s) \<Rightarrow> s | _ \<Rightarrow> {})"

text \<open>A new object, and a change of the object at an address.\<close>

definition new_obj :: "obj \<Rightarrow> store \<Rightarrow> addr \<times> store" where
  "new_obj ob h =
     (next_addr h, h\<lparr>objs := (objs h)(next_addr h \<mapsto> ob), next_addr := next_addr h + 1\<rparr>)"

definition update_at :: "addr \<Rightarrow> obj \<Rightarrow> store \<Rightarrow> store" where
  "update_at a ob h = h\<lparr>objs := (objs h)(a \<mapsto> ob)\<rparr>"

text \<open>\<open>[...xs]\<close> makes a new array with the elements of \<open>xs\<close>.\<close>

definition spread_copy :: "addr \<Rightarrow> store \<Rightarrow> addr \<times> store" where
  "spread_copy a h = new_obj (Arr (array_at h a)) h"

text \<open>
  \<open>xs.sort(() => Math.random() - 0.5)\<close> reorders the array at \<open>a\<close> itself and returns
  the same reference.
\<close>

definition sort_in_place :: "rand \<Rightarrow> nat \<Rightarrow> addr \<Rightarrow> store \<Rightarrow> store" where
  "sort_in_place sh k a h = update_at a (Arr (sh k (array_at h a))) h"

text \<open>
  The value of \<open>exclusions[giver] || []\<close> on the store: a reference to the array
  that the record holds for the giver, the very one of the caller; or a member inherited
  from \<open>Object.prototype\<close>, a built-in object that is no part of this store; or a
  reference to a new empty array.
\<close>

datatype ref = Ref addr | Builtin

definition excluded_or_empty :: "addr \<Rightarrow> jsstring \<Rightarrow> store \<Rightarrow> ref \<times> store" where
  "excluded_or_empty e giver h =
     (case excl_at h e giver of
        Some a \<Rightarrow> (Ref a, h)
      | None \<Rightarrow>
          if giver \<in> set object_prototype_names then (Builtin, h)
          else (let (a, h') = new_obj (Arr []) h in (Ref a, h')))"

text \<open>\<open>excluded.includes(receiver)\<close>, a \<open>TypeError\<close> on an inherited member.\<close>

fun includes_at :: "store \<Rightarrow> ref \<Rightarrow> jsstring \<Rightarrow> exn + bool" where
  "includes_at h (Ref a) receiver = Inr (receiver \<in> set (array_at h a))"
| "includes_at h Builtin receiver = Inl TypeError"

text \<open>
  \<open>allocation[giver] = receiver\<close> and \<open>delete allocation[giver]\<close> on the record at
  \<open>al\<close>.
\<close>

definition assign_at :: "addr \<Rightarrow> jsstring \<Rightarrow> jsstring \<Rightarrow> store \<Rightarrow> store" where
  "assign_at al giver receiver h = update_at al (Rec (set_property (rec_at h al) giver receiver)) h"

definition delete_at :: "addr \<Rightarrow> jsstring \<Rightarrow> store \<Rightarrow> store" where
  "delete_at al giver h = update_at al (Rec (delete_property (rec_at h al) giver)) h"

lemma array_at_shrinks:
  "length (array_at (assign_at al giver receiver h) p) \<le> length (array_at h p)"
  "excluded_or_empty e giver h = (x, h1) \<Longrightarrow> length (array_at h1 p) \<le> length (array_at h p)"
  by (auto simp: array_at_def update_at_def new_obj_def assign_at_def excluded_or_empty_def
        split: option.splits if_splits)

text \<open>
  The \<open>for\<close> loop of a trial. \<open>p\<close>, \<open>shuffled\<close>, \<open>e\<close> and \<open>al\<close> are the
  references held by \<open>participants\<close>, \<open>shuffled\<close>, \<open>exclusions\<close> and
  \<open>allocation\<close>; \<open>participants.length\<close> and the elements are read from the store
  each time round. The result is \<open>valid\<close> when the loop is left, or the exception,
  with the store at that point.
\<close>

function trial_for_st ::
  "addr \<Rightarrow> addr \<Rightarrow> addr \<Rightarrow> addr \<Rightarrow> nat \<Rightarrow> store \<Rightarrow> (exn + bool) \<times> store"
where
  "trial_for_st p shuffled e al i h =
     (if i < length (array_at h p) then
        (let giver = array_at h p ! i; receiver = array_at h shuffled ! i in
         if giver = receiver then (Inr False, h)
         else
           (let (excluded, h1) = excluded_or_empty e giver h in
            case includes_at h1 excluded receiver of
              Inl err \<Rightarrow> (Inl err, h1)
            | Inr True \<Rightarrow> (Inr False, h1)
            | Inr False \<Rightarrow>
                trial_for_st p shuffled e al (i + 1) (assign_at al giver receiver h1)))
      else (Inr True, h))"
  by pat_completeness auto
termination
proof (relation "measure (\<lambda>(p, s, e, al, i, h). length (array_at h p) - i)", goal_cases)
  case 1
  show ?case by simp
next
  case (2 p shuffled e al i h giver receiver x excluded h1 found)
  have "length (array_at h1 p) \<le> length (array_at h p)"
    using 2 array_at_shrinks(2)[of e giver h excluded h1 p] by simp
  then have "length (array_at (assign_at al giver receiver h1) p) \<le> length (array_at h p)"
    using array_at_shrinks(1)[of al giver receiver h1 p] by (rule order_trans[rotated])
  then show ?case using 2(1) by simp
qed

declare trial_for_st.simps [simp del]

text \<open>
  The \<open>while\<close> loop: each trial copies \<open>participants\<close>, sorts the copy and fills a
  new record. The result is the reference returned, if any, or the exception; the value
  of \<open>attempts\<close>; and the store.
\<close>

function trial_while_st ::
  "rand \<Rightarrow> addr \<Rightarrow> addr \<Rightarrow> nat \<Rightarrow> store \<Rightarrow> (exn + addr option) \<times> nat \<times> store"
where
  "trial_while_st sh p e attempts h =
     (if attempts < maxAttempts then
        (let (copy, h1) = spread_copy p h;
             h2 = sort_in_place sh attempts copy h1;
             shuffled = copy;
             (al, h3) = new_obj (Rec Map.empty) h2
         in case trial_for_st p shuffled e al 0 h3 of
              (Inl err, h4) \<Rightarrow> (Inl err, attempts, h4)
            | (Inr True, h4) \<Rightarrow> (Inr (Some al), attempts, h4)
            | (Inr False, h4) \<Rightarrow> trial_while_st sh p e (attempts + 1) h4)
      else (Inr None, attempts, h))"
  by pat_completeness auto
termination
  by (relation "measure (\<lambda>(sh, p, e, a, h). maxAttempts - a)") auto

declare trial_while_st.simps [simp del]

text \<open>
  \<open>backtrack\<close> on the store. \<open>al\<close> and \<open>us\<close> are the references of the closure's
  \<open>allocation\<close> and \<open>used\<close>. The recursion of the source has no bound of its own;
  here the first argument bounds its depth, \<open>None\<close> is the bound reached, and
  \<open>allocateSystematic_st\<close> starts with one more than the number of participants, which
  is shown to be enough. The array literal of line 68 is a new array, as are the set
  made from it and the result of \<open>filter\<close>; the spread of an inherited member throws
  before any of them can be reached.
\<close>

function (sequential) backtrack_st ::
    "nat \<Rightarrow> rand \<Rightarrow> addr \<Rightarrow> addr \<Rightarrow> addr \<Rightarrow> addr \<Rightarrow> nat \<Rightarrow> nat \<Rightarrow> store
       \<Rightarrow> ((exn + bool) \<times> nat \<times> store) option"
  and candidates_for_st ::
    "nat \<Rightarrow> rand \<Rightarrow> addr \<Rightarrow> addr \<Rightarrow> addr \<Rightarrow> addr \<Rightarrow> nat \<Rightarrow> jsstring \<Rightarrow> jsstring list
       \<Rightarrow> nat \<Rightarrow> store \<Rightarrow> ((exn + bool) \<times> nat \<times> store) option"
where
  "backtrack_st 0 sh p e al us index k h = None"
| "backtrack_st (Suc depth) sh p e al us index k h =
     (if index \<ge> length (array_at h p) then Some (Inr True, k, h)
      else
        (let giver = array_at h p ! index in
         case excluded_or_empty e giver h of
           (Builtin, h1) \<Rightarrow> Some (Inl TypeError, k, h1)
         | (Ref x, h1) \<Rightarrow>
             (let (tmp, h2) = new_obj (Arr (giver # array_at h1 x)) h1;
                  (excluded, h3) = new_obj (StrSet (set (array_at h2 tmp))) h2;
                  (filtered, h4) =
                    new_obj (Arr (filter (\<lambda>c. c \<notin> set_at h3 excluded \<and> c \<notin> set_at h3 us)
                                  (array_at h3 p))) h3;
                  h5 = sort_in_place sh k filtered h4;
                  candidates = filtered
              in candidates_for_st depth sh p e al us index giver (array_at h5 candidates)
                   (k + 1) h5)))"
| "candidates_for_st depth sh p e al us index giver [] k h = Some (Inr False, k, h)"
| "candidates_for_st depth sh p e al us index giver (receiver # rest) k h =
     (let h1 = assign_at al giver receiver h;
          h2 = update_at us (StrSet (insert receiver (set_at h1 us))) h1
      in case backtrack_st depth sh p e al us (index + 1) k h2 of
           None \<Rightarrow> None
         | Some (Inl err, k', h3) \<Rightarrow> Some (Inl err, k', h3)
         | Some (Inr True, k', h3) \<Rightarrow> Some (Inr True, k', h3)
         | Some (Inr False, k', h3) \<Rightarrow>
             (let h4 = update_at us (StrSet (set_at h3 us - {receiver})) h3;
                  h5 = delete_at al giver h4
              in candidates_for_st depth sh p e al us index giver rest k' h5))"
  by pat_completeness auto
termination
  by (relation "measures
        [\<lambda>x. case x of
               Inl (depth, sh, p, e, al, us, index, k, h) \<Rightarrow> 2 * depth
             | Inr (depth, sh, p, e, al, us, index, giver, cs, k, h) \<Rightarrow> 2 * depth + 1,
         \<lambda>x. case x of
               Inl (depth, sh, p, e, al, us, index, k, h) \<Rightarrow> 0
             | Inr (depth, sh, p, e, al, us, index, giver, cs, k, h) \<Rightarrow> length cs]") auto

text \<open>
  \<open>allocateSystematic\<close> and \<open>allocateSecretSanta\<close> on the store: the reference
  returned (\<open>Inr None\<close> for \<open>null\<close>) or the exception, with the store that the call
  leaves.
\<close>

definition allocateSystematic_st ::
  "rand \<Rightarrow> nat \<Rightarrow> addr \<Rightarrow> addr \<Rightarrow> store \<Rightarrow> ((exn + addr option) \<times> store) option" where
  "allocateSystematic_st sh k p e h =
     (let (al, h1) = new_obj (Rec Map.empty) h;
          (us, h2) = new_obj (StrSet {}) h1
      in case backtrack_st (length (array_at h2 p) + 1) sh p e al us 0 k h2 of
           None \<Rightarrow> None
         | Some (Inl err, k', h3) \<Rightarrow> Some (Inl err, h3)
         | Some (Inr True, k', h3) \<Rightarrow> Some (Inr (Some al), h3)
         | Some (Inr False, k', h3) \<Rightarrow> Some (Inr None, h3))"

definition allocateSecretSanta_st ::
  "rand \<Rightarrow> addr \<Rightarrow> addr \<Rightarrow> store \<Rightarrow> ((exn + addr option) \<times> store) option" where
  "allocateSecretSanta_st sh p e h =
     (if length (array_at h p) < 2 then Some (Inr None, h)
      else case trial_while_st sh p e 0 h of
             (Inl err, attempts, h') \<Rightarrow> Some (Inl err, h')
           | (Inr (Some al), attempts, h') \<Rightarrow> Some (Inr (Some al), h')
           | (Inr None, attempts, h') \<Rightarrow> allocateSystematic_st sh attempts p e h')"

section \<open>What the claims speak about\<close>

subsection \<open>Allocations\<close>

text \<open>
  The exclusion set of a giver, as the mapping has it: the names of the giver's own
  entry, and none without an entry. \<open>allowed\<close> is the constraint of the specification
  on a pair: the receiver is not the giver and is not in the giver's exclusion set.
\<close>

definition exclusion_list :: "exclusions \<Rightarrow> jsstring \<Rightarrow> jsstring list" where
  "exclusion_list ex giver = (case ex giver of None \<Rightarrow> [] | Some l \<Rightarrow> l)"

definition allowed :: "exclusions \<Rightarrow> jsstring \<Rightarrow> jsstring \<Rightarrow> bool" where
  "allowed ex giver receiver = (receiver \<noteq> giver \<and> receiver \<notin> set (exclusion_list ex giver))"

text \<open>
  The two checks of the engine on a pair, both passed: lines 26 and 33 of a trial, the
  filter of line 72 in the search.
\<close>

definition passes :: "exclusions \<Rightarrow> jsstring \<Rightarrow> jsstring \<Rightarrow> bool" where
  "passes ex giver receiver =
     (giver \<noteq> receiver \<and> array_includes (excluded_of ex giver) receiver = Inr False)"

text \<open>
  No read \<open>exclusions[giver]\<close> of a participant ends at a property of
  \<open>Object.prototype\<close>: every participant has an entry of their own, or a name that
  \<open>Object.prototype\<close> does not define. The caller of the repository gives every
  participant an entry, and its names are upper case.
\<close>

definition no_inherited_read :: "jsstring list \<Rightarrow> exclusions \<Rightarrow> bool" where
  "no_inherited_read ps ex = list_all (\<lambda>g. excluded_of ex g \<noteq> Inherited) ps"

text \<open>
  An allocation as the specification describes it: every participant is a giver, every
  participant is the receiver of exactly one giver, nobody gives to themselves and nobody
  gives to a name they exclude.
\<close>

definition valid_allocation :: "jsstring list \<Rightarrow> exclusions \<Rightarrow> allocation \<Rightarrow> bool" where
  "valid_allocation ps ex a =
     (dom a = set ps \<and> ran a = set ps \<and>
      (\<forall>p\<in>set ps. \<exists>!g. a g = Some p) \<and>
      (\<forall>g r. a g = Some r \<longrightarrow> r \<noteq> g \<and> r \<notin> set (exclusion_list ex g)))"

text \<open>
  The problem is feasible when some rearrangement of the participants, paired position by
  position with the participants, satisfies both constraints everywhere.
\<close>

definition feasible :: "jsstring list \<Rightarrow> exclusions \<Rightarrow> bool" where
  "feasible ps ex = (\<exists>rs. mset rs = mset ps \<and> list_all2 (allowed ex) ps rs)"


text \<open>The exclusions with every participant's own name taken out of their array.\<close>

definition without_self :: "exclusions \<Rightarrow> exclusions" where
  "without_self ex = (\<lambda>g. map_option (removeAll g) (ex g))"

subsection \<open>Invariants of the backtracking search\<close>

text \<open>
  \<open>completes ps ex i U rs\<close>: the receivers \<open>rs\<close> finish the assignment from giver
  \<open>i\<close> on, using no name of \<open>U\<close> and no name twice.
\<close>

definition completes ::
  "jsstring list \<Rightarrow> exclusions \<Rightarrow> nat \<Rightarrow> jsstring set \<Rightarrow> jsstring list \<Rightarrow> bool" where
  "completes ps ex i U rs =
     (list_all2 (passes ex) (drop i ps) rs \<and> distinct rs \<and> set rs \<subseteq> set ps - U)"

definition fresh_keys :: "jsstring list \<Rightarrow> nat \<Rightarrow> sys_state \<Rightarrow> bool" where
  "fresh_keys ps i s =
     (distinct ps \<and> js ''__proto__'' \<notin> set ps \<and> dom (allocation s) \<inter> set (drop i ps) = {})"

text \<open>
  What a call of \<open>backtrack\<close> at \<open>index = i\<close> from state \<open>s\<close> leaves when it
  returns: on success a completion written into \<open>allocation\<close> and \<open>used\<close>, on failure
  both as they were.
\<close>

definition outcome ::
  "jsstring list \<Rightarrow> exclusions \<Rightarrow> nat \<Rightarrow> sys_state \<Rightarrow> bool \<times> sys_state \<Rightarrow> bool" where
  "outcome ps ex i s res =
     (case res of
        (True, s') \<Rightarrow>
          (\<exists>rs. completes ps ex i (used s) rs \<and> used s' = used s \<union> set rs \<and>
                (fresh_keys ps i s \<longrightarrow>
                   allocation s' = allocation s ++ map_of (zip (drop i ps) rs)))
      | (False, s') \<Rightarrow>
          used s' = used s \<and> (fresh_keys ps i s \<longrightarrow> allocation s' = allocation s))"

subsection \<open>Payloads and tokens\<close>

text \<open>
  The object that \<open>JSON.parse\<close> builds from the text of a payload: the payload's
  properties with the payload's strings, in the payload's order. A result equal to it is
  equal to the payload field for field, and has no other field.
\<close>

definition to_json :: "payload \<Rightarrow> json" where
  "to_json p = JObject (map (\<lambda>m. (fst m, JString (snd m))) p)"

text \<open>Strings of code units up to \<open>0xFF\<close>, the ones \<open>btoa\<close> accepts.\<close>

definition latin1 :: "jsstring \<Rightarrow> bool" where
  "latin1 s = list_all (\<lambda>c. c \<le> 0xFF) s"

definition latin1_payload :: "payload \<Rightarrow> bool" where
  "latin1_payload p = list_all (\<lambda>m. latin1 (snd m)) p"

text \<open>
  The strings that \<open>JSON.stringify\<close> turns into text of code units up to \<open>0xFF\<close>:
  every code unit above \<open>0xFF\<close> is a surrogate on its own, which is written as an
  escape, and no lead surrogate is followed by a trail surrogate.
\<close>

fun escapable :: "jsstring \<Rightarrow> bool" where
  "escapable [] = True"
| "escapable [c] = (is_lead c \<or> is_trail c \<or> c \<le> 0xFF)"
| "escapable (c # c' # cs) =
     (if is_lead c then \<not> is_trail c' \<and> escapable (c' # cs)
      else (is_trail c \<or> c \<le> 0xFF) \<and> escapable (c' # cs))"

definition escapable_payload :: "payload \<Rightarrow> bool" where
  "escapable_payload p = list_all (\<lambda>m. escapable (snd m)) p"

text \<open>
  \<open>decodePayload(encodePayload(p))\<close>: an exception of \<open>encodePayload\<close> propagates,
  since nothing catches it.
\<close>

definition round_trip :: "payload \<Rightarrow> exn + json option" where
  "round_trip p =
     (case encodePayload p of Inl e \<Rightarrow> Inl e | Inr token \<Rightarrow> Inr (decodePayload token))"

text \<open>A parsed value has a string under the property \<open>key\<close>.\<close>

fun string_field :: "json \<Rightarrow> string \<Rightarrow> bool" where
  "string_field (JObject kvs) key = is_string (map_of (rev kvs) (js key))"
| "string_field v key = False"

text \<open>
  Step 4 as the specification words it, on the characters of a Base64 text: \<open>+\<close>,
  \<open>/\<close> and \<open>=\<close> are escaped, letters and digits are kept.
\<close>

definition percent_base64 :: "jschar \<Rightarrow> jsstring" where
  "percent_base64 c =
     (if c = 0x2B then js ''%2B''
      else if c = 0x2F then js ''%2F''
      else if c = 0x3D then js ''%3D''
      else [c])"

text \<open>What \<open>encodeURIComponent\<close> writes for one ASCII character.\<close>

definition uri_ascii :: "jschar \<Rightarrow> jsstring" where
  "uri_ascii c = (if is_unreserved c then [c] else percent (unat c))"

text \<open>
  The six-bit groups of a byte sequence and the padding that \<open>base64_encode\<close> appends,
  taken apart for the proofs.
\<close>

fun sextets :: "nat list \<Rightarrow> nat list" where
  "sextets [] = []"
| "sextets [a] = [a div 4, a mod 4 * 16]"
| "sextets [a, b] = [a div 4, a mod 4 * 16 + b div 16, b mod 16 * 4]"
| "sextets (a # b # c # bs) =
     [a div 4, a mod 4 * 16 + b div 16, b mod 16 * 4 + c div 64, c mod 64] @ sextets bs"

fun padding :: "nat list \<Rightarrow> jsstring" where
  "padding [] = []"
| "padding [a] = [0x3D, 0x3D]"
| "padding [a, b] = [0x3D]"
| "padding (a # b # c # bs) = padding bs"

subsection \<open>Stores\<close>

text \<open>
  \<open>frame n h h'\<close>: the store \<open>h'\<close> has every object of \<open>h\<close> below address \<open>n\<close>
  as it was, and has lost no address.
\<close>

definition frame :: "nat \<Rightarrow> store \<Rightarrow> store \<Rightarrow> bool" where
  "frame n h h' = (next_addr h \<le> next_addr h' \<and> (\<forall>a. a < n \<longrightarrow> objs h' a = objs h a))"

text \<open>
  A search on the store comes back within its depth bound, with a result or an
  exception, and frames the store.
\<close>

definition returns_framed ::
  "nat \<Rightarrow> store \<Rightarrow> ((exn + bool) \<times> nat \<times> store) option \<Rightarrow> bool" where
  "returns_framed n h res = (\<exists>r k h'. res = Some (r, k, h') \<and> frame n h h')"

text \<open>
  What the engine's arguments are, read from the store: the names of the participants
  array, and the exclusions as a dictionary from a name to the names of the array that
  the record refers to. \<open>caller_owns n h p e\<close>: the participants array, the exclusions
  record and the arrays it refers to are objects below address \<open>n\<close> of the store.
\<close>

definition ex_view :: "store \<Rightarrow> addr \<Rightarrow> exclusions" where
  "ex_view h e = (\<lambda>g. map_option (array_at h) (excl_at h e g))"

definition caller_owns :: "nat \<Rightarrow> store \<Rightarrow> addr \<Rightarrow> addr \<Rightarrow> bool" where
  "caller_owns n h p e =
     (n \<le> next_addr h \<and> p < n \<and> e < n \<and> (\<forall>g a. excl_at h e g = Some a \<longrightarrow> a < n))"

text \<open>
  The results on the store, read as the results of the functions on values: a reference
  to a record stands for the record's properties in the store that the call leaves.
\<close>

fun trial_view :: "store \<Rightarrow> addr \<Rightarrow> exn + bool \<Rightarrow> exn + allocation option" where
  "trial_view h al (Inl err) = Inl err"
| "trial_view h al (Inr True) = Inr (Some (rec_at h al))"
| "trial_view h al (Inr False) = Inr None"

fun result_view :: "store \<Rightarrow> exn + addr option \<Rightarrow> exn + allocation option" where
  "result_view h (Inl err) = Inl err"
| "result_view h (Inr None) = Inr None"
| "result_view h (Inr (Some al)) = Inr (Some (rec_at h al))"

definition sys_view :: "store \<Rightarrow> addr \<Rightarrow> addr \<Rightarrow> nat \<Rightarrow> sys_state" where
  "sys_view h al us k = \<lparr>allocation = rec_at h al, used = set_at h us, calls = k\<rparr>"

fun search_view ::
  "addr \<Rightarrow> addr \<Rightarrow> (exn + bool) \<times> nat \<times> store \<Rightarrow> exn + bool \<times> sys_state" where
  "search_view al us (Inl err, k, h) = Inl err"
| "search_view al us (Inr b, k, h) = Inr (b, sys_view h al us k)"

text \<open>
  A store as a caller may hold it: the participants at address 0, the exclusions record
  at address 1, and the one exclusion array, that of A, at address 2.
\<close>

definition example_store :: store where
  "example_store =
     \<lparr>objs = [0 \<mapsto> Arr [js ''A'', js ''B'', js ''C''],
              1 \<mapsto> Excl [js ''A'' \<mapsto> 2],
              2 \<mapsto> Arr [js ''B'']],
      next_addr = 3\<rparr>"

text \<open>
  A store on which the call throws: the participants \<open>constructor\<close> and B at address
  0, and an exclusions record without entries at address 1.
\<close>

definition example_store_inherited :: store where
  "example_store_inherited =
     \<lparr>objs = [0 \<mapsto> Arr [js ''constructor'', js ''B''], 1 \<mapsto> Excl Map.empty],
      next_addr = 2\<rparr>"

section \<open>The allocation engine: proofs\<close>

lemma excluded_of_Names:
  "excluded_of ex g \<noteq> Inherited \<Longrightarrow> excluded_of ex g = Names (exclusion_list ex g)"
  by (auto simp: excluded_of_def exclusion_list_def split: option.splits if_splits)

lemma passes_iff: "passes ex g r \<longleftrightarrow> excluded_of ex g \<noteq> Inherited \<and> allowed ex g r"
proof (cases "excluded_of ex g")
  case Inherited
  then show ?thesis by (simp add: passes_def)
next
  case (Names l)
  then have "l = exclusion_list ex g" using excluded_of_Names[of ex g] by simp
  then show ?thesis using Names by (auto simp: passes_def allowed_def)
qed

lemma no_inherited_readD:
  "no_inherited_read ps ex \<Longrightarrow> g \<in> set ps \<Longrightarrow> excluded_of ex g \<noteq> Inherited"
  by (simp add: no_inherited_read_def list_all_iff)

lemma set_property_upd:
  "g \<noteq> js ''__proto__'' \<Longrightarrow> set_property a g r = a(g \<mapsto> r)"
  by (simp add: set_property_def)

lemma trial_for_step:
  assumes "i < length ps"
  shows "trial_for ps rs ex i a =
           (if ps ! i = rs ! i then Inr None
            else case array_includes (excluded_of ex (ps ! i)) (rs ! i) of
                   Inl e \<Rightarrow> Inl e
                 | Inr True \<Rightarrow> Inr None
                 | Inr False \<Rightarrow> trial_for ps rs ex (i + 1) (set_property a (ps ! i) (rs ! i)))"
  using assms by (subst trial_for.simps) (simp add: Let_def)

lemma trial_for_end: "\<not> i < length ps \<Longrightarrow> trial_for ps rs ex i a = Inr (Some a)"
  by (subst trial_for.simps) simp

lemma trial_for_Some:
  "trial_for ps rs ex i a = Inr (Some a') \<longleftrightarrow>
     (\<forall>j. i \<le> j \<and> j < length ps \<longrightarrow> passes ex (ps ! j) (rs ! j)) \<and>
     a' = fold (\<lambda>j m. set_property m (ps ! j) (rs ! j)) [i..<length ps] a"
proof (induction ps rs ex i a rule: trial_for.induct)
  case (1 ps rs ex i a)
  show ?case
  proof (cases "i < length ps")
    case False
    then show ?thesis by (auto simp: trial_for_end)
  next
    case True
    note lt = this
    show ?thesis
    proof (cases "passes ex (ps ! i) (rs ! i)")
      case False
      then have "trial_for ps rs ex i a \<noteq> Inr (Some a')"
        unfolding trial_for_step[OF lt]
        by (auto simp: passes_def split: sum.splits bool.splits)
      moreover have "\<not> (\<forall>j. i \<le> j \<and> j < length ps \<longrightarrow> passes ex (ps ! j) (rs ! j))"
        using False lt by auto
      ultimately show ?thesis by simp
    next
      case True
      then have ne: "ps ! i \<noteq> rs ! i"
        and inc: "array_includes (excluded_of ex (ps ! i)) (rs ! i) = Inr False"
        by (simp_all add: passes_def)
      have step: "trial_for ps rs ex i a
          = trial_for ps rs ex (i + 1) (set_property a (ps ! i) (rs ! i))"
        unfolding trial_for_step[OF lt] using ne inc by simp
      have ih: "trial_for ps rs ex (i + 1) (set_property a (ps ! i) (rs ! i)) = Inr (Some a') \<longleftrightarrow>
         (\<forall>j. i + 1 \<le> j \<and> j < length ps \<longrightarrow> passes ex (ps ! j) (rs ! j)) \<and>
         a' = fold (\<lambda>j m. set_property m (ps ! j) (rs ! j)) [i + 1..<length ps]
                (set_property a (ps ! i) (rs ! i))"
        by (rule "1.IH"[OF lt refl refl ne refl inc refl])
      have all: "(\<forall>j. i \<le> j \<and> j < length ps \<longrightarrow> passes ex (ps ! j) (rs ! j)) \<longleftrightarrow>
          (\<forall>j. i + 1 \<le> j \<and> j < length ps \<longrightarrow> passes ex (ps ! j) (rs ! j))"
      proof (intro iffI allI impI)
        fix j
        assume h: "\<forall>j. i + 1 \<le> j \<and> j < length ps \<longrightarrow> passes ex (ps ! j) (rs ! j)"
          and j: "i \<le> j \<and> j < length ps"
        show "passes ex (ps ! j) (rs ! j)"
        proof (cases "j = i")
          case True
          then show ?thesis using \<open>passes ex (ps ! i) (rs ! i)\<close> by simp
        next
          case False
          then have "i + 1 \<le> j" using j by simp
          then show ?thesis using h j by blast
        qed
      qed simp
      have fo: "fold (\<lambda>j m. set_property m (ps ! j) (rs ! j)) [i..<length ps] a =
         fold (\<lambda>j m. set_property m (ps ! j) (rs ! j)) [i + 1..<length ps]
           (set_property a (ps ! i) (rs ! i))"
        using lt by (simp add: upt_conv_Cons)
      show ?thesis unfolding step ih all fo ..
    qed
  qed
qed

lemma trial_for_returns:
  "(\<forall>j. i \<le> j \<and> j < length ps \<longrightarrow> excluded_of ex (ps ! j) \<noteq> Inherited) \<Longrightarrow>
   \<exists>r. trial_for ps rs ex i a = Inr r"
proof (induction ps rs ex i a rule: trial_for.induct)
  case (1 ps rs ex i a)
  show ?case
  proof (cases "i < length ps")
    case False
    then show ?thesis by (simp add: trial_for_end)
  next
    case lt: True
    then have "excluded_of ex (ps ! i) \<noteq> Inherited" using "1.prems" by simp
    then obtain l where l: "excluded_of ex (ps ! i) = Names l"
      by (cases "excluded_of ex (ps ! i)") simp_all
    show ?thesis
    proof (cases "ps ! i \<noteq> rs ! i \<and> rs ! i \<notin> set l")
      case False
      then show ?thesis unfolding trial_for_step[OF lt] l by auto
    next
      case True
      then have inc: "array_includes (excluded_of ex (ps ! i)) (rs ! i) = Inr False"
        by (simp add: l)
      have "\<exists>r. trial_for ps rs ex (i + 1) (set_property a (ps ! i) (rs ! i)) = Inr r"
        by (rule "1.IH"[OF lt refl refl _ refl inc refl]) (use True "1.prems" in auto)
      then show ?thesis unfolding trial_for_step[OF lt] using True inc by simp
    qed
  qed
qed

lemma trial_while_step:
  "a < maxAttempts \<Longrightarrow>
   trial_while sh ps ex a =
     (case trial_for ps (sh a ps) ex 0 Map.empty of
        Inl e \<Rightarrow> (Inl e, a)
      | Inr (Some alloc) \<Rightarrow> (Inr (Some alloc), a)
      | Inr None \<Rightarrow> trial_while sh ps ex (a + 1))"
  by (subst trial_while.simps) simp

lemma trial_while_end: "\<not> a < maxAttempts \<Longrightarrow> trial_while sh ps ex a = (Inr None, a)"
  by (subst trial_while.simps) simp


lemma trial_while_None:
  "(\<forall>k. a \<le> k \<and> k < maxAttempts \<longrightarrow> trial_for ps (sh k ps) ex 0 Map.empty = Inr None)
    \<Longrightarrow> a \<le> maxAttempts \<Longrightarrow> trial_while sh ps ex a = (Inr None, maxAttempts)"
proof (induction sh ps ex a rule: trial_while.induct)
  case (1 sh ps ex a)
  show ?case
  proof (cases "a < maxAttempts")
    case True
    then have t: "trial_for ps (sh a ps) ex 0 Map.empty = Inr None" using "1.prems" by auto
    have "trial_while sh ps ex (a + 1) = (Inr None, maxAttempts)"
      by (rule "1.IH"[OF True t refl]) (use True "1.prems" in auto)
    then show ?thesis unfolding trial_while_step[OF True] t by simp
  next
    case False
    then show ?thesis using "1.prems" by (simp add: trial_while_end)
  qed
qed

lemma trial_while_left:
  "trial_while sh ps ex a = (r, k) \<Longrightarrow> r \<noteq> Inr None \<Longrightarrow>
     a \<le> k \<and> k < maxAttempts \<and> trial_for ps (sh k ps) ex 0 Map.empty = r \<and>
     (\<forall>j. a \<le> j \<and> j < k \<longrightarrow> trial_for ps (sh j ps) ex 0 Map.empty = Inr None)"
proof (induction sh ps ex a rule: trial_while.induct)
  case (1 sh ps ex a)
  show ?case
  proof (cases "a < maxAttempts")
    case False
    then show ?thesis using "1.prems" by (simp add: trial_while_end)
  next
    case True
    show ?thesis
    proof (cases "trial_for ps (sh a ps) ex 0 Map.empty = Inr None")
      case False
      then have "trial_while sh ps ex a = (trial_for ps (sh a ps) ex 0 Map.empty, a)"
        unfolding trial_while_step[OF True] by (auto split: sum.splits option.splits)
      then show ?thesis using "1.prems" True by auto
    next
      case None: True
      then have "trial_while sh ps ex (a + 1) = (r, k)"
        using "1.prems" unfolding trial_while_step[OF True] by simp
      from "1.IH"[OF True None refl this "1.prems"(2)]
      have ih: "a + 1 \<le> k" "k < maxAttempts"
        "trial_for ps (sh k ps) ex 0 Map.empty = r"
        "\<forall>j. a + 1 \<le> j \<and> j < k \<longrightarrow> trial_for ps (sh j ps) ex 0 Map.empty = Inr None"
        by simp_all
      have "trial_for ps (sh j ps) ex 0 Map.empty = Inr None" if "a \<le> j \<and> j < k" for j
      proof (cases "j = a")
        case True
        then show ?thesis using None by simp
      next
        case False
        then have "a + 1 \<le> j" using that by simp
        then show ?thesis using ih(4) that by blast
      qed
      then show ?thesis using ih by simp
    qed
  qed
qed

lemma trial_while_returns:
  assumes "no_inherited_read ps ex"
  shows "\<exists>r. fst (trial_while sh ps ex a) = Inr r"
proof (cases "fst (trial_while sh ps ex a)")
  case (Inr r)
  then show ?thesis by simp
next
  case (Inl e)
  obtain k where tw: "trial_while sh ps ex a = (Inl e, k)"
    using Inl by (cases "trial_while sh ps ex a") simp
  from trial_while_left[OF tw] have "trial_for ps (sh k ps) ex 0 Map.empty = Inl e" by simp
  moreover have "\<exists>r. trial_for ps (sh k ps) ex 0 Map.empty = Inr r"
    by (rule trial_for_returns) (use assms in \<open>auto simp: no_inherited_read_def list_all_length\<close>)
  ultimately show ?thesis by simp
qed

lemma outcome_calls [simp]: "outcome ps ex i (s\<lparr>calls := k\<rparr>) res = outcome ps ex i s res"
  by (simp add: outcome_def fresh_keys_def split: prod.splits bool.splits)

lemma completes_Nil: "length ps \<le> i \<Longrightarrow> completes ps ex i U []"
  by (simp add: completes_def)

lemma completes_Cons:
  assumes "i < length ps"
  shows "completes ps ex i U (r # rs) \<longleftrightarrow>
           passes ex (ps ! i) r \<and> r \<in> set ps \<and> r \<notin> U \<and> completes ps ex (i + 1) (insert r U) rs"
proof -
  have d: "drop i ps = ps ! i # drop (i + 1) ps"
    using assms by (simp add: Cons_nth_drop_Suc)
  show ?thesis unfolding completes_def d by auto
qed

lemma fresh_keys_step:
  assumes i: "i < length ps" and f: "fresh_keys ps i s"
  shows "set_property (allocation s) (ps ! i) r = (allocation s)(ps ! i \<mapsto> r)"
    and "ps ! i \<notin> set (drop (i + 1) ps)"
    and "allocation s (ps ! i) = None"
    and "fresh_keys ps (i + 1)
           (s\<lparr>allocation := set_property (allocation s) (ps ! i) r, used := U\<rparr>)"
proof -
  have d: "drop i ps = ps ! i # drop (i + 1) ps"
    using i by (simp add: Cons_nth_drop_Suc)
  have "ps ! i \<noteq> js ''__proto__''" using f i unfolding fresh_keys_def by (metis nth_mem)
  then show u: "set_property (allocation s) (ps ! i) r = (allocation s)(ps ! i \<mapsto> r)"
    by (rule set_property_upd)
  show nin: "ps ! i \<notin> set (drop (i + 1) ps)"
    using f d unfolding fresh_keys_def by (metis distinct.simps(2) distinct_drop)
  show "allocation s (ps ! i) = None"
    using f d unfolding fresh_keys_def by auto
  show "fresh_keys ps (i + 1)
           (s\<lparr>allocation := set_property (allocation s) (ps ! i) r, used := U\<rparr>)"
    using f nin d unfolding fresh_keys_def u by auto
qed

lemma outcome_step_True:
  assumes i: "i < length ps"
    and r: "passes ex (ps ! i) r" "r \<in> set ps" "r \<notin> used s"
    and sub: "outcome ps ex (i + 1)
                (s\<lparr>allocation := set_property (allocation s) (ps ! i) r,
                   used := insert r (used s)\<rparr>) (True, s2)"
  shows "outcome ps ex i s (True, s2)"
proof -
  let ?s1 = "s\<lparr>allocation := set_property (allocation s) (ps ! i) r, used := insert r (used s)\<rparr>"
  from sub obtain rs where rs: "completes ps ex (i + 1) (insert r (used s)) rs"
      "used s2 = insert r (used s) \<union> set rs"
      "fresh_keys ps (i + 1) ?s1 \<longrightarrow>
         allocation s2 = set_property (allocation s) (ps ! i) r
                           ++ map_of (zip (drop (i + 1) ps) rs)"
    by (auto simp: outcome_def)
  have d: "drop i ps = ps ! i # drop (i + 1) ps"
    using i by (simp add: Cons_nth_drop_Suc)
  have c: "completes ps ex i (used s) (r # rs)"
    using completes_Cons[OF i] r rs(1) by simp
  have u: "used s2 = used s \<union> set (r # rs)" using rs(2) by auto
  have a: "allocation s2 = allocation s ++ map_of (zip (drop i ps) (r # rs))"
    if f: "fresh_keys ps i s"
  proof -
    note st = fresh_keys_step[OF i f]
    have e: "allocation s2 = (allocation s)(ps ! i \<mapsto> r) ++ map_of (zip (drop (i + 1) ps) rs)"
      using rs(3) st(4)[where r = r and U = "insert r (used s)"] unfolding st(1) by simp
    have "ps ! i \<notin> dom (map_of (zip (drop (i + 1) ps) rs))"
      using st(2) by (metis dom_map_of_zip in_set_zipE map_of_SomeD domD)
    then show ?thesis unfolding e d
      by (simp add: map_add_upd_left fun_upd_twist map_add_def fun_eq_iff split: option.splits)
         (auto simp: dom_def)
  qed
  have "\<exists>rs'. completes ps ex i (used s) rs' \<and> used s2 = used s \<union> set rs' \<and>
          (fresh_keys ps i s \<longrightarrow> allocation s2 = allocation s ++ map_of (zip (drop i ps) rs'))"
    using c u a by blast
  then show ?thesis by (simp add: outcome_def)
qed

lemma outcome_transfer:
  assumes "outcome ps ex i s3 res" "used s3 = used s"
    "fresh_keys ps i s \<longrightarrow> allocation s3 = allocation s"
  shows "outcome ps ex i s res"
proof -
  have f: "fresh_keys ps i s3" "allocation s3 = allocation s" if "fresh_keys ps i s"
    using that assms(3) by (simp_all add: fresh_keys_def)
  obtain b s' where res: "res = (b, s')" by (cases res)
  show ?thesis
  proof (cases b)
    case True
    then obtain rs where rs: "completes ps ex i (used s3) rs" "used s' = used s3 \<union> set rs"
      "fresh_keys ps i s3 \<longrightarrow> allocation s' = allocation s3 ++ map_of (zip (drop i ps) rs)"
      using assms(1) res by (auto simp: outcome_def)
    have "completes ps ex i (used s) rs \<and> used s' = used s \<union> set rs \<and>
      (fresh_keys ps i s \<longrightarrow> allocation s' = allocation s ++ map_of (zip (drop i ps) rs))"
      using rs f assms(2) by simp
    then show ?thesis unfolding res outcome_def using True by auto
  next
    case False
    then have "used s' = used s3" "fresh_keys ps i s3 \<longrightarrow> allocation s' = allocation s3"
      using assms(1) res by (auto simp: outcome_def)
    then show ?thesis unfolding res outcome_def using False f assms(2) by simp
  qed
qed

lemma outcome_undo:
  assumes i: "i < length ps" and r: "r \<notin> used s"
    and sub: "outcome ps ex (i + 1)
                (s\<lparr>allocation := set_property (allocation s) (ps ! i) r,
                   used := insert r (used s)\<rparr>) (False, s2)"
  shows "used (s2\<lparr>used := used s2 - {r},
                  allocation := delete_property (allocation s2) (ps ! i)\<rparr>) = used s"
    and "fresh_keys ps i s \<longrightarrow>
      allocation (s2\<lparr>used := used s2 - {r},
                     allocation := delete_property (allocation s2) (ps ! i)\<rparr>)
        = allocation s"
proof -
  have u: "used s2 = insert r (used s)" using sub by (simp add: outcome_def)
  then show "used (s2\<lparr>used := used s2 - {r},
                  allocation := delete_property (allocation s2) (ps ! i)\<rparr>) = used s"
    using r by simp
  show "fresh_keys ps i s \<longrightarrow>
      allocation (s2\<lparr>used := used s2 - {r},
                     allocation := delete_property (allocation s2) (ps ! i)\<rparr>)
        = allocation s"
  proof
    assume f: "fresh_keys ps i s"
    note st = fresh_keys_step[OF i f]
    have "allocation s2 = (allocation s)(ps ! i \<mapsto> r)"
      using sub st(4)[where r = r and U = "insert r (used s)"] unfolding st(1) by (simp add: outcome_def)
    then show "allocation (s2\<lparr>used := used s2 - {r},
                     allocation := delete_property (allocation s2) (ps ! i)\<rparr>)
        = allocation s"
      using st(3) by (simp add: fun_eq_iff delete_property_def)
  qed
qed

lemma shuffler_set: "shuffler sh \<Longrightarrow> set (sh k xs) = set xs"
  unfolding shuffler_def by (metis set_mset_mset)

lemma backtrack_end: "length ps \<le> i \<Longrightarrow> backtrack sh ps ex i s = Inr (True, s)"
  by (simp add: backtrack.simps)

lemma backtrack_throw:
  "\<not> length ps \<le> i \<Longrightarrow> excluded_of ex (ps ! i) = Inherited \<Longrightarrow>
   backtrack sh ps ex i s = Inl TypeError"
  by (simp add: backtrack.simps Let_def)

lemma backtrack_step:
  "\<not> length ps \<le> i \<Longrightarrow> excluded_of ex (ps ! i) = Names l \<Longrightarrow>
   backtrack sh ps ex i s =
     candidates_for sh ps ex i
       (sh (calls s) (filter (\<lambda>p. p \<notin> set (ps ! i # l) \<and> p \<notin> used s) ps))
       (s\<lparr>calls := calls s + 1\<rparr>)"
  by (simp add: backtrack.simps Let_def)

lemma candidates_pass:
  assumes "shuffler sh" "excluded_of ex g = Names l"
  shows "c \<in> set (sh k (filter (\<lambda>p. p \<notin> set (g # l) \<and> p \<notin> U) ps))
           \<longleftrightarrow> passes ex g c \<and> c \<in> set ps \<and> c \<notin> U"
  unfolding shuffler_set[OF assms(1)] using assms(2) by (auto simp: passes_def)

lemma backtrack_outcome:
  shows "shuffler sh \<Longrightarrow> backtrack sh ps ex i s = Inr res \<Longrightarrow> outcome ps ex i s res"
    and "shuffler sh \<Longrightarrow> i < length ps \<Longrightarrow>
         (\<forall>c\<in>set cs. passes ex (ps ! i) c \<and> c \<in> set ps \<and> c \<notin> used s) \<Longrightarrow>
         candidates_for sh ps ex i cs s = Inr res \<Longrightarrow> outcome ps ex i s res"
proof (induction sh ps ex i s and sh ps ex i cs s arbitrary: res and res
        rule: backtrack_candidates_for.induct)
  case (1 sh ps ex i s)
  note sh = \<open>shuffler sh\<close> and run = "1.prems"(2)
  show ?case
  proof (cases "length ps \<le> i")
    case True
    then have "res = (True, s)" using run by (simp add: backtrack_end)
    moreover have "outcome ps ex i s (True, s)"
      using True completes_Nil[OF True] by (auto simp: outcome_def intro!: exI[of _ "[]"])
    ultimately show ?thesis by simp
  next
    case False
    show ?thesis
    proof (cases "excluded_of ex (ps ! i)")
      case Inherited
      then show ?thesis using run backtrack_throw[OF False Inherited] by simp
    next
      case (Names l)
      define cs where "cs = sh (calls s) (filter (\<lambda>p. p \<notin> set (ps ! i # l) \<and> p \<notin> used s) ps)"
      have bt: "backtrack sh ps ex i s = candidates_for sh ps ex i cs (s\<lparr>calls := calls s + 1\<rparr>)"
        unfolding cs_def using False Names by (rule backtrack_step)
      have mem: "\<forall>c\<in>set cs. passes ex (ps ! i) c \<and> c \<in> set ps
                   \<and> c \<notin> used (s\<lparr>calls := calls s + 1\<rparr>)"
        unfolding cs_def using candidates_pass[OF sh Names] by simp
      have g: "giver_and (ps ! i) (excluded_of ex (ps ! i)) = Inr (set (ps ! i # l))"
        by (simp add: Names)
      have "outcome ps ex i (s\<lparr>calls := calls s + 1\<rparr>) res"
        using "1.IH"[OF False refl g cs_def sh _ mem] False run bt by simp
      then show ?thesis by simp
    qed
  qed
next
  case (2 sh ps ex i s)
  then show ?case by (auto simp: outcome_def)
next
  case (3 sh ps ex i r rest s)
  note sh = \<open>shuffler sh\<close> and i = \<open>i < length ps\<close> and run = "3.prems"(4)
  have r: "passes ex (ps ! i) r" "r \<in> set ps" "r \<notin> used s"
    and rest: "\<forall>c\<in>set rest. passes ex (ps ! i) c \<and> c \<in> set ps \<and> c \<notin> used s"
    using "3.prems"(3) by simp_all
  define s1 where "s1 = s\<lparr>allocation := set_property (allocation s) (ps ! i) r,
                          used := insert r (used s)\<rparr>"
  obtain b s2 where sub: "backtrack sh ps ex (i + 1) s1 = Inr (b, s2)"
    using run by (cases "backtrack sh ps ex (i + 1) s1") (auto simp: s1_def Let_def)
  have o1: "outcome ps ex (i + 1) s1 (b, s2)"
    using "3.IH"(1)[OF refl s1_def sh sub] .
  show ?case
  proof (cases b)
    case True
    then have "res = (True, s2)"
      using sub run by (simp add: s1_def Let_def)
    moreover have "outcome ps ex i s (True, s2)"
      using outcome_step_True[OF i r] o1 True by (simp add: s1_def)
    ultimately show ?thesis by simp
  next
    case False
    define s3 where "s3 = s2\<lparr>used := used s2 - {r},
                            allocation := delete_property (allocation s2) (ps ! i)\<rparr>"
    have c: "candidates_for sh ps ex i (r # rest) s = candidates_for sh ps ex i rest s3"
      using sub False by (simp add: s1_def s3_def Let_def)
    have o1': "outcome ps ex (i + 1)
                (s\<lparr>allocation := set_property (allocation s) (ps ! i) r,
                   used := insert r (used s)\<rparr>) (False, s2)"
      using o1 False by (simp add: s1_def)
    have u3: "used s3 = used s" and a3: "fresh_keys ps i s \<longrightarrow> allocation s3 = allocation s"
      using outcome_undo[OF i r(3) o1'] by (simp_all add: s3_def)
    have run3: "candidates_for sh ps ex i rest s3 = Inr res" using run unfolding c .
    have "outcome ps ex i s3 res"
    proof (rule "3.IH"(2)[OF refl s1_def sub refl _ sh i _ run3[unfolded s3_def], folded s3_def])
      show "b = False" using False by simp
      show "\<forall>c\<in>set rest. passes ex (ps ! i) c \<and> c \<in> set ps \<and> c \<notin> used s3"
        using rest u3 by simp
    qed
    then show ?thesis using u3 a3 by (rule outcome_transfer)
  qed
qed

lemma backtrack_returns:
  shows "no_inherited_read ps ex \<Longrightarrow> \<exists>res. backtrack sh ps ex i s = Inr res"
    and "no_inherited_read ps ex \<Longrightarrow> \<exists>res. candidates_for sh ps ex i cs s = Inr res"
proof (induction sh ps ex i s and sh ps ex i cs s rule: backtrack_candidates_for.induct)
  case (1 sh ps ex i s)
  show ?case
  proof (cases "length ps \<le> i")
    case True
    then show ?thesis using backtrack_end[OF True] by blast
  next
    case False
    then have "excluded_of ex (ps ! i) \<noteq> Inherited"
      using "1.prems" by (simp add: no_inherited_readD)
    then obtain l where l: "excluded_of ex (ps ! i) = Names l"
      by (cases "excluded_of ex (ps ! i)") simp_all
    have g: "giver_and (ps ! i) (excluded_of ex (ps ! i)) = Inr (set (ps ! i # l))"
      by (simp add: l)
    show ?thesis
      unfolding backtrack_step[OF False l]
      using "1.IH"[OF False refl g refl "1.prems"] by simp
  qed
next
  case (2 sh ps ex i s)
  show ?case by auto
next
  case (3 sh ps ex i r rest s)
  define s1 where "s1 = s\<lparr>allocation := set_property (allocation s) (ps ! i) r,
                          used := insert r (used s)\<rparr>"
  obtain b s2 where sub: "backtrack sh ps ex (i + 1) s1 = Inr (b, s2)"
    using "3.IH"(1)[OF refl s1_def "3.prems"] by auto
  show ?case
  proof (cases b)
    case True
    then show ?thesis using sub by (auto simp: s1_def Let_def)
  next
    case False
    then show ?thesis
      using "3.IH"(2)[OF refl s1_def sub refl _ "3.prems"] sub by (auto simp: s1_def Let_def)
  qed
qed

lemma backtrack_complete:
  shows "shuffler sh \<Longrightarrow> no_inherited_read ps ex \<Longrightarrow> completes ps ex i (used s) rs \<Longrightarrow>
         \<exists>s'. backtrack sh ps ex i s = Inr (True, s')"
    and "shuffler sh \<Longrightarrow> no_inherited_read ps ex \<Longrightarrow> i < length ps \<Longrightarrow>
         (\<forall>c\<in>set cs. passes ex (ps ! i) c \<and> c \<in> set ps \<and> c \<notin> used s) \<Longrightarrow>
         completes ps ex i (used s) (r0 # rs) \<Longrightarrow> r0 \<in> set cs \<Longrightarrow>
         \<exists>s'. candidates_for sh ps ex i cs s = Inr (True, s')"
proof (induction sh ps ex i s and sh ps ex i cs s arbitrary: rs and r0 rs
        rule: backtrack_candidates_for.induct)
  case (1 sh ps ex i s)
  note sh = \<open>shuffler sh\<close> and own = \<open>no_inherited_read ps ex\<close>
  show ?case
  proof (cases "length ps \<le> i")
    case True
    then show ?thesis by (simp add: backtrack_end)
  next
    case False
    then have i: "i < length ps" by simp
    then have "excluded_of ex (ps ! i) \<noteq> Inherited"
      using own by (simp add: no_inherited_readD)
    then obtain l where l: "excluded_of ex (ps ! i) = Names l"
      by (cases "excluded_of ex (ps ! i)") simp_all
    have g: "giver_and (ps ! i) (excluded_of ex (ps ! i)) = Inr (set (ps ! i # l))"
      by (simp add: l)
    define cs where "cs = sh (calls s) (filter (\<lambda>p. p \<notin> set (ps ! i # l) \<and> p \<notin> used s) ps)"
    have bt: "backtrack sh ps ex i s = candidates_for sh ps ex i cs (s\<lparr>calls := calls s + 1\<rparr>)"
      unfolding cs_def using False l by (rule backtrack_step)
    have mem: "\<forall>c\<in>set cs. passes ex (ps ! i) c \<and> c \<in> set ps
                 \<and> c \<notin> used (s\<lparr>calls := calls s + 1\<rparr>)"
      unfolding cs_def using candidates_pass[OF sh l] by simp
    have "drop i ps \<noteq> []" using i by simp
    then obtain r0 rs' where rs: "rs = r0 # rs'"
      using "1.prems"(3) unfolding completes_def by (cases rs) auto
    have c: "completes ps ex i (used (s\<lparr>calls := calls s + 1\<rparr>)) (r0 # rs')"
      using "1.prems"(3) rs by simp
    then have "passes ex (ps ! i) r0 \<and> r0 \<in> set ps \<and> r0 \<notin> used s"
      using completes_Cons[OF i] by simp
    then have "r0 \<in> set cs" unfolding cs_def using candidates_pass[OF sh l] by simp
    from "1.IH"[OF False refl g cs_def sh own i mem c this]
    show ?thesis unfolding bt .
  qed
next
  case (2 sh ps ex i s)
  then show ?case by simp
next
  case (3 sh ps ex i r rest s)
  note sh = \<open>shuffler sh\<close> and own = \<open>no_inherited_read ps ex\<close> and i = \<open>i < length ps\<close>
  have r: "passes ex (ps ! i) r" "r \<in> set ps" "r \<notin> used s"
    and rest: "\<forall>c\<in>set rest. passes ex (ps ! i) c \<and> c \<in> set ps \<and> c \<notin> used s"
    using "3.prems"(4) by simp_all
  define s1 where "s1 = s\<lparr>allocation := set_property (allocation s) (ps ! i) r,
                          used := insert r (used s)\<rparr>"
  obtain b s2 where sub: "backtrack sh ps ex (i + 1) s1 = Inr (b, s2)"
    using backtrack_returns(1)[OF own, of sh "i + 1" s1] by auto
  have o1: "outcome ps ex (i + 1) s1 (b, s2)"
    using backtrack_outcome(1)[OF sh sub] .
  show ?case
  proof (cases b)
    case True
    then show ?thesis using sub by (simp add: s1_def Let_def)
  next
    case False
    define s3 where "s3 = s2\<lparr>used := used s2 - {r},
                            allocation := delete_property (allocation s2) (ps ! i)\<rparr>"
    have c: "candidates_for sh ps ex i (r # rest) s = candidates_for sh ps ex i rest s3"
      using sub False by (simp add: s1_def s3_def Let_def)
    have o1': "outcome ps ex (i + 1)
                (s\<lparr>allocation := set_property (allocation s) (ps ! i) r,
                   used := insert r (used s)\<rparr>) (False, s2)"
      using o1 False by (simp add: s1_def)
    have u3: "used s3 = used s"
      using outcome_undo(1)[OF i r(3) o1'] by (simp add: s3_def)
    have tl: "completes ps ex (i + 1) (insert r0 (used s)) rs"
      using "3.prems"(5) completes_Cons[OF i] by simp
    have "r0 \<noteq> r"
    proof
      assume "r0 = r"
      then have "completes ps ex (i + 1) (used s1) rs" using tl by (simp add: s1_def)
      from "3.IH"(1)[OF refl s1_def sh own this] sub False show False by simp
    qed
    then have in_rest: "r0 \<in> set rest" using "3.prems"(6) by simp
    have "\<exists>s'. candidates_for sh ps ex i rest s3 = Inr (True, s')"
    proof (rule "3.IH"(2)[OF refl s1_def sub refl _ sh own i, folded s3_def])
      show "b = False" using False by simp
      show "\<forall>c\<in>set rest. passes ex (ps ! i) c \<and> c \<in> set ps \<and> c \<notin> used s3"
        using rest u3 by simp
      show "completes ps ex i (used s3) (r0 # rs)" using "3.prems"(5) u3 by simp
      show "r0 \<in> set rest" by (rule in_rest)
    qed
    then show ?thesis unfolding c .
  qed
qed

lemma completes_start_distinct:
  assumes "completes ps ex 0 {} rs"
  shows "distinct ps"
proof -
  have len: "length rs = length ps" and d: "distinct rs" and sub: "set rs \<subseteq> set ps"
    using assms by (auto simp: completes_def dest: list_all2_lengthD)
  have "length ps = card (set rs)" using d len by (simp add: distinct_card)
  also have "\<dots> \<le> card (set ps)" using sub by (simp add: card_mono)
  finally have "card (set ps) = length ps" using card_length[of ps] by simp
  then show ?thesis by (rule card_distinct)
qed

lemma completes_start_iff:
  assumes "distinct ps"
  shows "completes ps ex 0 {} rs \<longleftrightarrow> mset rs = mset ps \<and> list_all2 (passes ex) ps rs"
proof
  assume c: "completes ps ex 0 {} rs"
  then have len: "length rs = length ps" and d: "distinct rs" and sub: "set rs \<subseteq> set ps"
    and a: "list_all2 (passes ex) ps rs"
    by (auto simp: completes_def dest: list_all2_lengthD)
  have "card (set rs) = card (set ps)" using d assms len by (simp add: distinct_card)
  then have "set rs = set ps" using sub by (simp add: card_subset_eq)
  then have "mset rs = mset ps" using d assms by (simp add: set_eq_iff_mset_eq_distinct)
  then show "mset rs = mset ps \<and> list_all2 (passes ex) ps rs" using a by simp
next
  assume h: "mset rs = mset ps \<and> list_all2 (passes ex) ps rs"
  then have "distinct rs" using assms by (metis mset_eq_imp_distinct_iff)
  moreover have "set rs = set ps" using h by (metis set_mset_mset)
  ultimately show "completes ps ex 0 {} rs" using h by (simp add: completes_def)
qed

lemma passes_allowed: "list_all2 (passes ex) ps rs \<Longrightarrow> list_all2 (allowed ex) ps rs"
  by (erule list_all2_mono) (simp add: passes_iff)

lemma allowed_passes:
  assumes "no_inherited_read ps ex" "list_all2 (allowed ex) ps rs"
  shows "list_all2 (passes ex) ps rs"
proof -
  have "passes ex (ps ! j) (rs ! j)" if "j < length ps" for j
    using that assms list_all2_nthD[OF assms(2) that]
    by (simp add: passes_iff no_inherited_readD)
  then show ?thesis using list_all2_lengthD[OF assms(2)] by (simp add: list_all2_conv_all_nth)
qed

lemma allocateSystematic_Some:
  assumes sh: "shuffler sh" and r: "allocateSystematic sh k ps ex = Inr (Some a)"
  shows "distinct ps \<and> (\<exists>rs. mset rs = mset ps \<and> list_all2 (passes ex) ps rs \<and>
           (js ''__proto__'' \<notin> set ps \<longrightarrow> a = map_of (zip ps rs)))"
proof -
  let ?s0 = "\<lparr>allocation = Map.empty, used = {}, calls = k\<rparr>"
  from r obtain s' where bt: "backtrack sh ps ex 0 ?s0 = Inr (True, s')" and a: "a = allocation s'"
    by (auto simp: allocateSystematic_def split: sum.splits bool.splits)
  from backtrack_outcome(1)[OF sh bt]
  obtain rs where rs: "completes ps ex 0 {} rs"
    "fresh_keys ps 0 ?s0 \<longrightarrow> allocation s' = Map.empty ++ map_of (zip ps rs)"
    by (auto simp: outcome_def)
  have d: "distinct ps" using rs(1) by (rule completes_start_distinct)
  then have "allocation s' = map_of (zip ps rs)" if "js ''__proto__'' \<notin> set ps"
    using rs(2) that by (simp add: fresh_keys_def)
  then show ?thesis using d rs(1) a completes_start_iff[OF d] by blast
qed

lemma allocateSystematic_returns:
  assumes "no_inherited_read ps ex"
  shows "\<exists>r. allocateSystematic sh k ps ex = Inr r"
proof -
  obtain b s' where "backtrack sh ps ex 0 \<lparr>allocation = Map.empty, used = {}, calls = k\<rparr>
      = Inr (b, s')"
    using backtrack_returns(1)[OF assms] by (metis surj_pair)
  then show ?thesis by (cases b) (simp_all add: allocateSystematic_def)
qed

lemma allocateSystematic_None:
  assumes sh: "shuffler sh" and own: "no_inherited_read ps ex"
    and r: "allocateSystematic sh k ps ex = Inr None"
  shows "\<not> (distinct ps \<and> feasible ps ex)"
proof
  assume h: "distinct ps \<and> feasible ps ex"
  then obtain rs where "completes ps ex 0 {} rs"
    using completes_start_iff[of ps ex] allowed_passes[OF own] by (auto simp: feasible_def)
  then have "\<exists>s'. backtrack sh ps ex 0 \<lparr>allocation = Map.empty, used = {}, calls = k\<rparr>
      = Inr (True, s')"
    using backtrack_complete(1)[OF sh own] by simp
  then show False using r by (auto simp: allocateSystematic_def)
qed

lemma fold_set_property_zip:
  assumes "distinct ps" "js ''__proto__'' \<notin> set ps" "length rs = length ps"
  shows "i \<le> length ps \<Longrightarrow>
     fold (\<lambda>j m. set_property m (ps ! j) (rs ! j)) [i..<length ps] a
       = a ++ map_of (zip (drop i ps) (drop i rs))"
proof (induction "length ps - i" arbitrary: i a)
  case 0
  then show ?case by simp
next
  case (Suc n)
  then have i: "i < length ps" by simp
  have dp: "drop i ps = ps ! i # drop (Suc i) ps" using i by (simp add: Cons_nth_drop_Suc)
  have dr: "drop i rs = rs ! i # drop (Suc i) rs" using i assms(3) by (simp add: Cons_nth_drop_Suc)
  have nin: "ps ! i \<notin> set (drop (Suc i) ps)"
    using assms(1) dp by (metis distinct.simps(2) distinct_drop)
  then have nd: "ps ! i \<notin> dom (map_of (zip (drop (Suc i) ps) (drop (Suc i) rs)))"
    using assms(3) by (simp add: dom_map_of_zip)
  have sp: "set_property a (ps ! i) (rs ! i) = a(ps ! i \<mapsto> rs ! i)"
    using assms(2) i by (intro set_property_upd) (metis nth_mem)
  have "fold (\<lambda>j m. set_property m (ps ! j) (rs ! j)) [i..<length ps] a
      = fold (\<lambda>j m. set_property m (ps ! j) (rs ! j)) [Suc i..<length ps] (a(ps ! i \<mapsto> rs ! i))"
    using i by (simp add: upt_conv_Cons sp)
  also have "\<dots> = a(ps ! i \<mapsto> rs ! i) ++ map_of (zip (drop (Suc i) ps) (drop (Suc i) rs))"
    using Suc.hyps(1)[of "Suc i"] Suc.hyps(2) i by simp
  also have "\<dots> = a ++ map_of (zip (drop i ps) (drop i rs))"
    unfolding dp dr using nd
    by (auto simp: map_add_def fun_eq_iff dom_def split: option.splits)
  finally show ?case .
qed

lemma list_all2_passes:
  "length rs = length ps \<Longrightarrow>
   list_all2 (passes ex) ps rs \<longleftrightarrow> (\<forall>j. 0 \<le> j \<and> j < length ps \<longrightarrow> passes ex (ps ! j) (rs ! j))"
  by (auto simp: list_all2_conv_all_nth)

lemma trial_for_passes:
  assumes "length rs = length ps"
  shows "trial_for ps rs ex 0 Map.empty = Inr (Some a) \<longleftrightarrow>
           list_all2 (passes ex) ps rs \<and>
           a = fold (\<lambda>j m. set_property m (ps ! j) (rs ! j)) [0..<length ps] Map.empty"
  unfolding trial_for_Some using assms by (simp add: list_all2_passes)

lemma shuffler_length: "shuffler sh \<Longrightarrow> length (sh k ps) = length ps"
  unfolding shuffler_def by (metis size_mset)

lemma permutation_valid:
  assumes d: "distinct ps" and m: "mset rs = mset ps" and al: "list_all2 (allowed ex) ps rs"
  shows "valid_allocation ps ex (map_of (zip ps rs))"
proof -
  have len: "length rs = length ps" using m by (metis size_mset)
  have drs: "distinct rs" using d m by (metis mset_eq_imp_distinct_iff)
  have srs: "set rs = set ps" using m by (metis set_mset_mset)
  have nth: "map_of (zip ps rs) (ps ! j) = Some (rs ! j)" if "j < length ps" for j
    using that d len by (simp add: map_of_zip_nth)
  have dom: "dom (map_of (zip ps rs)) = set ps" using len by (simp add: dom_map_of_zip)
  have ran: "ran (map_of (zip ps rs)) = set rs" using d len by (simp add: ran_map_of_zip)
  have uniq: "\<exists>!g. map_of (zip ps rs) g = Some p" if "p \<in> set ps" for p
  proof -
    from that srs obtain j where j: "j < length rs" "rs ! j = p"
      by (metis in_set_conv_nth)
    show ?thesis
    proof (rule ex1I[of _ "ps ! j"])
      show "map_of (zip ps rs) (ps ! j) = Some p" using nth j len by simp
    next
      fix g assume g: "map_of (zip ps rs) g = Some p"
      then have "g \<in> set ps" using dom by blast
      then obtain k where k: "k < length ps" "ps ! k = g" by (metis in_set_conv_nth)
      then have "rs ! k = p" using nth g by force
      then have "rs ! k = rs ! j" using j by simp
      then have "k = j" using j k len nth_eq_iff_index_eq[OF drs, of k j] by simp
      then show "g = ps ! j" using k by simp
    qed
  qed
  have ok: "r \<noteq> g \<and> r \<notin> set (exclusion_list ex g)" if "map_of (zip ps rs) g = Some r" for g r
  proof -
    from that have "g \<in> set ps" using dom by blast
    then obtain k where k: "k < length ps" "ps ! k = g" by (metis in_set_conv_nth)
    then have "rs ! k = r" using nth that by force
    moreover have "allowed ex (ps ! k) (rs ! k)" using list_all2_nthD[OF al k(1)] .
    ultimately show ?thesis using k by (simp add: allowed_def)
  qed
  show ?thesis unfolding valid_allocation_def using dom ran srs uniq ok by blast
qed

lemma allocate_cases:
  assumes "2 \<le> length ps"
  obtains (threw) e k where "trial_while sh ps ex 0 = (Inl e, k)"
      "allocateSecretSanta sh ps ex = Inl e"
    | (trial) m k where "trial_while sh ps ex 0 = (Inr (Some m), k)"
      "allocateSecretSanta sh ps ex = Inr (Some m)"
    | (search) k where "trial_while sh ps ex 0 = (Inr None, k)"
      "allocateSecretSanta sh ps ex = allocateSystematic sh k ps ex"
proof -
  obtain res k where tw: "trial_while sh ps ex 0 = (res, k)" by (cases "trial_while sh ps ex 0")
  show ?thesis
  proof (cases res)
    case (Inl e)
    then show ?thesis using tw assms threw by (simp add: allocateSecretSanta_def)
  next
    case (Inr opt)
    then show ?thesis using tw assms trial search
      by (cases opt) (simp_all add: allocateSecretSanta_def)
  qed
qed

lemma allocate_Some:
  assumes sh: "shuffler sh" and r: "allocateSecretSanta sh ps ex = Inr (Some a)"
  shows "\<exists>rs. mset rs = mset ps \<and> list_all2 (passes ex) ps rs \<and>
           (distinct ps \<and> js ''__proto__'' \<notin> set ps \<longrightarrow> a = map_of (zip ps rs))"
proof -
  have n: "2 \<le> length ps" using r by (auto simp: allocateSecretSanta_def split: if_splits)
  from n show ?thesis
  proof (cases rule: allocate_cases[where sh = sh and ex = ex])
    case (threw e k)
    then show ?thesis using r by simp
  next
    case (search k)
    then have "allocateSystematic sh k ps ex = Inr (Some a)" using r by simp
    from allocateSystematic_Some[OF sh this] show ?thesis by blast
  next
    case (trial m k)
    then have am: "a = m" using r by simp
    from trial_while_left[OF trial(1)]
    have t: "trial_for ps (sh k ps) ex 0 Map.empty = Inr (Some m)" by simp
    have len: "length (sh k ps) = length ps" using sh by (rule shuffler_length)
    have al: "list_all2 (passes ex) ps (sh k ps)"
      and m: "m = fold (\<lambda>j m. set_property m (ps ! j) (sh k ps ! j)) [0..<length ps] Map.empty"
      using t trial_for_passes[OF len] by simp_all
    have ms: "mset (sh k ps) = mset ps" using sh by (simp add: shuffler_def)
    have "a = map_of (zip ps (sh k ps))" if "distinct ps \<and> js ''__proto__'' \<notin> set ps"
      using fold_set_property_zip[OF _ _ len, of 0 Map.empty] that m am by simp
    then show ?thesis using al ms by blast
  qed
qed

lemma allocate_returns:
  assumes "no_inherited_read ps ex"
  shows "\<exists>r. allocateSecretSanta sh ps ex = Inr r"
proof (cases "2 \<le> length ps")
  case False
  then show ?thesis by (simp add: allocateSecretSanta_def)
next
  case True
  from True show ?thesis
  proof (cases rule: allocate_cases[where sh = sh and ex = ex])
    case (threw e k)
    then show ?thesis using trial_while_returns[OF assms, of sh 0] by simp
  next
    case (trial m k)
    then show ?thesis by simp
  next
    case (search k)
    then show ?thesis using allocateSystematic_returns[OF assms] by simp
  qed
qed

lemma shuffler_rotate1: "shuffler (\<lambda>k. rotate1)"
proof -
  have "mset (rotate1 xs) = mset xs" for xs :: "jsstring list"
    by (cases xs) simp_all
  then show ?thesis by (simp add: shuffler_def)
qed

lemma shuffler_rev: "shuffler (\<lambda>k. rev)"
  by (simp add: shuffler_def)

lemma shuffler_id: "shuffler (\<lambda>k xs. xs)"
  by (simp add: shuffler_def)

lemma allocate_sound:
  assumes "shuffler sh" "distinct ps" "js ''__proto__'' \<notin> set ps"
    "allocateSecretSanta sh ps ex = Inr (Some a)"
  shows "valid_allocation ps ex a"
  using allocate_Some[OF assms(1,4)] assms(2,3) permutation_valid passes_allowed by blast

lemma allocate_infeasible:
  assumes sh: "shuffler sh" and own: "no_inherited_read ps ex" and inf: "\<not> feasible ps ex"
  shows "allocateSecretSanta sh ps ex = Inr None"
proof -
  obtain r where r: "allocateSecretSanta sh ps ex = Inr r"
    using allocate_returns[OF own] by blast
  show ?thesis
  proof (cases r)
    case None
    then show ?thesis using r by simp
  next
    case (Some a)
    from allocate_Some[OF sh r[unfolded Some]] have "feasible ps ex"
      using passes_allowed by (auto simp: feasible_def)
    with inf show ?thesis by simp
  qed
qed

lemma feasible_iff_valid_allocation:
  assumes d: "distinct ps"
  shows "feasible ps ex \<longleftrightarrow> (\<exists>a. valid_allocation ps ex a)"
proof
  assume "feasible ps ex"
  then show "\<exists>a. valid_allocation ps ex a"
    unfolding feasible_def using permutation_valid[OF d] by blast
next
  assume "\<exists>a. valid_allocation ps ex a"
  then obtain a where dom: "dom a = set ps" and ran: "ran a = set ps"
    and uniq: "\<forall>p\<in>set ps. \<exists>!g. a g = Some p"
    and ok: "\<forall>g r. a g = Some r \<longrightarrow> r \<noteq> g \<and> r \<notin> set (exclusion_list ex g)"
    unfolding valid_allocation_def by blast
  define rs where "rs = map (\<lambda>g. the (a g)) ps"
  have some: "a g = Some (the (a g))" if "g \<in> set ps" for g
    using that dom by force
  have inj: "inj_on (\<lambda>g. the (a g)) (set ps)"
  proof (rule inj_onI)
    fix g h assume g: "g \<in> set ps" and h: "h \<in> set ps" and e: "the (a g) = the (a h)"
    have "the (a g) \<in> set ps" using some[OF g] ran by (metis ranI)
    then have "\<exists>!x. a x = Some (the (a g))" using uniq by blast
    moreover have "a g = Some (the (a g))" "a h = Some (the (a g))"
      using some[OF g] some[OF h] e by simp_all
    ultimately show "g = h" by blast
  qed
  have drs: "distinct rs" unfolding rs_def using d inj by (simp add: distinct_map)
  have "set rs = (\<lambda>g. the (a g)) ` set ps" by (simp add: rs_def)
  also have "\<dots> = ran a"
  proof
    show "(\<lambda>g. the (a g)) ` set ps \<subseteq> ran a" using some by (auto intro: ranI)
    show "ran a \<subseteq> (\<lambda>g. the (a g)) ` set ps"
    proof
      fix r assume "r \<in> ran a"
      then obtain g where g: "a g = Some r" by (auto simp: ran_def)
      then have "g \<in> set ps" using dom by blast
      then show "r \<in> (\<lambda>g. the (a g)) ` set ps" using g by force
    qed
  qed
  finally have "set rs = set ps" using ran by simp
  then have m: "mset rs = mset ps" using drs d by (simp add: set_eq_iff_mset_eq_distinct)
  have "allowed ex (ps ! j) (rs ! j)" if "j < length ps" for j
  proof -
    have "a (ps ! j) = Some (rs ! j)" using that some by (simp add: rs_def)
    then show ?thesis using ok by (simp add: allowed_def)
  qed
  then have "list_all2 (allowed ex) ps rs" by (simp add: list_all2_conv_all_nth rs_def)
  then show "feasible ps ex" using m unfolding feasible_def by blast
qed

lemma rotate1_feasible:
  assumes d: "distinct ps" and n: "2 \<le> length ps"
  shows "feasible ps Map.empty"
proof -
  have m: "mset (rotate1 ps) = mset ps" by (cases ps) simp_all
  have "allowed Map.empty (ps ! j) (rotate1 ps ! j)" if j: "j < length ps" for j
  proof -
    have e: "rotate1 ps ! j = ps ! (Suc j mod length ps)" using j by (rule nth_rotate1)
    have "Suc j mod length ps \<noteq> j"
    proof (cases "Suc j < length ps")
      case True
      then show ?thesis by simp
    next
      case False
      then have "Suc j = length ps" using j by simp
      then show ?thesis using n by simp
    qed
    moreover have "0 < length ps" using j by (cases ps) simp_all
    then have "Suc j mod length ps < length ps" by (rule mod_less_divisor)
    ultimately have "ps ! (Suc j mod length ps) \<noteq> ps ! j"
      using d j by (simp add: nth_eq_iff_index_eq)
    then show ?thesis by (simp add: allowed_def exclusion_list_def e)
  qed
  then have "list_all2 (allowed Map.empty) ps (rotate1 ps)"
    by (simp add: list_all2_conv_all_nth)
  then show ?thesis using m unfolding feasible_def by blast
qed

lemma allocate_complete:
  assumes sh: "shuffler sh" and own: "no_inherited_read ps ex" and d: "distinct ps"
    and n: "2 \<le> length ps" and f: "feasible ps ex"
  shows "\<exists>a. allocateSecretSanta sh ps ex = Inr (Some a)"
  using n
proof (cases rule: allocate_cases[where sh = sh and ex = ex])
  case (threw e k)
  then show ?thesis using allocate_returns[OF own, of sh] by simp
next
  case (trial m k)
  then show ?thesis by simp
next
  case (search k)
  obtain r where r: "allocateSystematic sh k ps ex = Inr r"
    using allocateSystematic_returns[OF own] by blast
  have "r \<noteq> None" using allocateSystematic_None[OF sh own, of k] r d f by auto
  then show ?thesis using search r by auto
qed

lemma first_giver_throws:
  assumes n: "2 \<le> length ps" and g: "excluded_of ex (ps ! 0) = Inherited"
  shows "allocateSecretSanta sh ps ex = Inl TypeError"
proof -
  have lt: "0 < length ps" using n by auto
  have t: "trial_for ps rs ex 0 Map.empty = Inr None \<or> trial_for ps rs ex 0 Map.empty = Inl TypeError"
    for rs
    unfolding trial_for_step[OF lt] g by simp
  have s: "allocateSystematic sh k ps ex = Inl TypeError" for k
    using backtrack_throw[of ps 0 ex] lt g by (simp add: allocateSystematic_def)
  from n show ?thesis
  proof (cases rule: allocate_cases[where sh = sh and ex = ex])
    case (threw e k)
    from trial_while_left[OF threw(1)] t[of "sh k ps"] threw(2) show ?thesis by auto
  next
    case (trial m k)
    from trial_while_left[OF trial(1)] t[of "sh k ps"] show ?thesis by auto
  next
    case (search k)
    then show ?thesis using s by simp
  qed
qed

text \<open>
  C1 (as amended). Whenever the names are unique, none of them is \<open>__proto__\<close> and
  \<open>allocateSecretSanta\<close> returns a mapping, the mapping is a complete bijection on the
  participants: its keys are the participants, every participant is the receiver of
  exactly one giver, no giver is mapped to itself and no giver is mapped to a name of its
  exclusion array. This holds for every outcome of the random sorts.
\<close>

theorem allocation_is_valid_bijection:
  assumes "shuffler sh" "distinct ps" "js ''__proto__'' \<notin> set ps"
    "allocateSecretSanta sh ps ex = Inr (Some a)"
  shows "valid_allocation ps ex a"
  using assms by (rule allocate_sound)

theorem allocation_is_valid_bijection_witness:
  "shuffler (\<lambda>k. rotate1) \<and> distinct [js ''ANN'', js ''BEN'', js ''CAT''] \<and>
   js ''__proto__'' \<notin> set [js ''ANN'', js ''BEN'', js ''CAT''] \<and>
   allocateSecretSanta (\<lambda>k. rotate1) [js ''ANN'', js ''BEN'', js ''CAT''] [js ''ANN'' \<mapsto> [js ''CAT'']]
     = Inr (Some [js ''ANN'' \<mapsto> js ''BEN'', js ''BEN'' \<mapsto> js ''CAT'', js ''CAT'' \<mapsto> js ''ANN'']) \<and>
   valid_allocation [js ''ANN'', js ''BEN'', js ''CAT''] [js ''ANN'' \<mapsto> [js ''CAT'']]
     [js ''ANN'' \<mapsto> js ''BEN'', js ''BEN'' \<mapsto> js ''CAT'', js ''CAT'' \<mapsto> js ''ANN'']"
proof -
  have d: "distinct [js ''ANN'', js ''BEN'', js ''CAT'']" by (simp add: js_def)
  have p: "js ''__proto__'' \<notin> set [js ''ANN'', js ''BEN'', js ''CAT'']" by (simp add: js_def)
  have r: "allocateSecretSanta (\<lambda>k. rotate1) [js ''ANN'', js ''BEN'', js ''CAT''] [js ''ANN'' \<mapsto> [js ''CAT'']]
     = Inr (Some [js ''ANN'' \<mapsto> js ''BEN'', js ''BEN'' \<mapsto> js ''CAT'', js ''CAT'' \<mapsto> js ''ANN''])"
    by (simp add: allocateSecretSanta_def trial_while.simps[of _ _ _ 0] maxAttempts_def
          trial_for.simps excluded_of_def object_prototype_names_def set_property_def
          js_def Let_def)
  show ?thesis
    using allocation_is_valid_bijection[OF shuffler_rotate1 d p r] shuffler_rotate1 d p r by simp
qed

text \<open>
  C1 as stated, for every participants list, fails in two ways. When a name is repeated:
  for \<open>["A", "B", "C", "C"]\<close> a trial whose sort leaves \<open>["C", "C", "B", "A"]\<close> passes
  both checks at every index, and the mapping returned sends both A and B to C while
  nobody gives to B. When a participant is named \<open>__proto__\<close>: the assignment of line
  38 stores nothing under that name, so for \<open>["__proto__", "B"]\<close>, with an entry of its
  own for \<open>__proto__\<close> in the exclusions, the mapping returned has B as its only giver.
\<close>

theorem invalid_allocation_returned:
  "allocateSecretSanta (\<lambda>k. rev) [js ''A'', js ''B'', js ''C'', js ''C''] Map.empty
     = Inr (Some [js ''A'' \<mapsto> js ''C'', js ''B'' \<mapsto> js ''C'', js ''C'' \<mapsto> js ''A'']) \<and>
   \<not> valid_allocation [js ''A'', js ''B'', js ''C'', js ''C''] Map.empty
     [js ''A'' \<mapsto> js ''C'', js ''B'' \<mapsto> js ''C'', js ''C'' \<mapsto> js ''A''] \<and>
   distinct [js ''__proto__'', js ''B''] \<and>
   allocateSecretSanta (\<lambda>k. rev) [js ''__proto__'', js ''B''] [js ''__proto__'' \<mapsto> []]
     = Inr (Some [js ''B'' \<mapsto> js ''__proto__'']) \<and>
   \<not> valid_allocation [js ''__proto__'', js ''B''] [js ''__proto__'' \<mapsto> []]
     [js ''B'' \<mapsto> js ''__proto__'']"
proof -
  have r: "allocateSecretSanta (\<lambda>k. rev) [js ''A'', js ''B'', js ''C'', js ''C''] Map.empty
     = Inr (Some [js ''A'' \<mapsto> js ''C'', js ''B'' \<mapsto> js ''C'', js ''C'' \<mapsto> js ''A''])"
    by (simp add: allocateSecretSanta_def trial_while.simps[of _ _ _ 0] maxAttempts_def
          trial_for.simps excluded_of_def object_prototype_names_def set_property_def
          js_def Let_def)
  have "\<not> (\<exists>g. [js ''A'' \<mapsto> js ''C'', js ''B'' \<mapsto> js ''C'', js ''C'' \<mapsto> js ''A''] g = Some (js ''B''))"
    by (auto simp: js_def split: if_splits)
  then have v: "\<not> valid_allocation [js ''A'', js ''B'', js ''C'', js ''C''] Map.empty
     [js ''A'' \<mapsto> js ''C'', js ''B'' \<mapsto> js ''C'', js ''C'' \<mapsto> js ''A'']"
    unfolding valid_allocation_def by (metis list.set_intros(1,2))
  have d: "distinct [js ''__proto__'', js ''B'']" by (simp add: js_def)
  have r': "allocateSecretSanta (\<lambda>k. rev) [js ''__proto__'', js ''B''] [js ''__proto__'' \<mapsto> []]
     = Inr (Some [js ''B'' \<mapsto> js ''__proto__''])"
    by (simp add: allocateSecretSanta_def trial_while.simps[of _ _ _ 0] maxAttempts_def
          trial_for.simps excluded_of_def object_prototype_names_def set_property_def
          js_def Let_def)
  have "dom [js ''B'' \<mapsto> js ''__proto__''] \<noteq> set [js ''__proto__'', js ''B'']"
    by (simp add: js_def)
  then have v': "\<not> valid_allocation [js ''__proto__'', js ''B''] [js ''__proto__'' \<mapsto> []]
     [js ''B'' \<mapsto> js ''__proto__'']"
    unfolding valid_allocation_def by blast
  show ?thesis using r v d r' v' by blast
qed

text \<open>
  C3 (as amended). If no rearrangement of the participants satisfies the no-self and
  exclusion constraints against the participants position by position, and no read of
  the exclusions ends at a property of \<open>Object.prototype\<close>, then
  \<open>allocateSecretSanta\<close> returns \<open>null\<close>: it neither throws nor returns a mapping. For
  unique names \<open>feasible\<close> is the existence of a valid allocation
  (\<open>feasible_iff_valid_allocation\<close>).
\<close>

theorem infeasible_returns_null:
  assumes "shuffler sh" "no_inherited_read ps ex" "\<not> feasible ps ex"
  shows "allocateSecretSanta sh ps ex = Inr None"
  using assms by (rule allocate_infeasible)

lemma mutual_infeasible:
  "\<not> feasible [js ''A'', js ''B''] [js ''A'' \<mapsto> [js ''B''], js ''B'' \<mapsto> [js ''A'']]"
proof
  assume "feasible [js ''A'', js ''B''] [js ''A'' \<mapsto> [js ''B''], js ''B'' \<mapsto> [js ''A'']]"
  then obtain rs where m: "mset rs = mset [js ''A'', js ''B'']"
    and al: "list_all2 (allowed [js ''A'' \<mapsto> [js ''B''], js ''B'' \<mapsto> [js ''A'']]) [js ''A'', js ''B''] rs"
    by (auto simp: feasible_def)
  from al obtain x y where rs: "rs = [x, y]"
    and x: "allowed [js ''A'' \<mapsto> [js ''B''], js ''B'' \<mapsto> [js ''A'']] (js ''A'') x"
    by (auto simp: list_all2_Cons1)
  from m have "set rs = {js ''A'', js ''B''}" by (metis set_mset_mset list.simps(15) empty_set)
  then have "x = js ''A'' \<or> x = js ''B''" using rs by auto
  then show False using x by (auto simp: allowed_def exclusion_list_def js_def)
qed

theorem infeasible_returns_null_witness:
  "shuffler (\<lambda>k. rotate1) \<and>
   no_inherited_read [js ''A'', js ''B''] [js ''A'' \<mapsto> [js ''B''], js ''B'' \<mapsto> [js ''A'']] \<and>
   \<not> feasible [js ''A'', js ''B''] [js ''A'' \<mapsto> [js ''B''], js ''B'' \<mapsto> [js ''A'']] \<and>
   allocateSecretSanta (\<lambda>k. rotate1) [js ''A'', js ''B'']
     [js ''A'' \<mapsto> [js ''B''], js ''B'' \<mapsto> [js ''A'']] = Inr None"
proof -
  have own: "no_inherited_read [js ''A'', js ''B''] [js ''A'' \<mapsto> [js ''B''], js ''B'' \<mapsto> [js ''A'']]"
    by (simp add: no_inherited_read_def excluded_of_def)
  show ?thesis
    using infeasible_returns_null[OF shuffler_rotate1 own mutual_infeasible]
      shuffler_rotate1 own mutual_infeasible by simp
qed

text \<open>
  C3 as stated, for every infeasible input, fails where a participant without an entry
  of their own has a name that \<open>Object.prototype\<close> defines. For
  \<open>["constructor", "A"]\<close> with A excluding \<open>constructor\<close> no assignment exists, and
  the call throws a \<open>TypeError\<close>: line 33 or line 68 takes the inherited function for
  the exclusion array of \<open>constructor\<close>.
\<close>

theorem infeasible_input_throws:
  "\<not> feasible [js ''constructor'', js ''A''] [js ''A'' \<mapsto> [js ''constructor'']] \<and>
   allocateSecretSanta (\<lambda>k. rev) [js ''constructor'', js ''A''] [js ''A'' \<mapsto> [js ''constructor'']]
     = Inl TypeError"
proof -
  let ?ps = "[js ''constructor'', js ''A'']" and ?ex = "[js ''A'' \<mapsto> [js ''constructor'']]"
  have ne: "js ''A'' \<noteq> js ''constructor''" by (simp add: js_def)
  have "\<not> feasible ?ps ?ex"
  proof
    assume "feasible ?ps ?ex"
    then obtain rs where m: "mset rs = mset ?ps" and al: "list_all2 (allowed ?ex) ?ps rs"
      by (auto simp: feasible_def)
    from al obtain x y where rs: "rs = [x, y]"
      and x: "allowed ?ex (js ''constructor'') x" and y: "allowed ?ex (js ''A'') y"
      by (auto simp: list_all2_Cons1)
    from m have "set rs = {js ''constructor'', js ''A''}"
      by (metis set_mset_mset list.simps(15) empty_set)
    then have "y = js ''constructor'' \<or> y = js ''A''" using rs by auto
    then show False using y by (auto simp: allowed_def exclusion_list_def)
  qed
  moreover have "excluded_of ?ex (?ps ! 0) = Inherited"
    using ne by (simp add: excluded_of_def object_prototype_names_def)
  then have "allocateSecretSanta (\<lambda>k. rev) ?ps ?ex = Inl TypeError"
    by (intro first_giver_throws) simp_all
  ultimately show ?thesis by simp
qed

text \<open>
  C5 (as amended). For at least two participants with unique names, none of them a name
  that \<open>Object.prototype\<close> defines, and no exclusions, \<open>allocateSecretSanta\<close> returns
  a mapping, never \<open>null\<close>, and the mapping is a derangement: a bijection on the
  participants without a fixed point. When all 1000 trials fail, the backtracking
  search finds one.
\<close>

theorem no_exclusions_gives_derangement:
  assumes "shuffler sh" "distinct ps" "2 \<le> length ps" "no_inherited_read ps Map.empty"
  shows "\<exists>a. allocateSecretSanta sh ps Map.empty = Inr (Some a) \<and>
              valid_allocation ps Map.empty a"
proof -
  have "excluded_of Map.empty (js ''__proto__'') = Inherited"
    by (simp add: excluded_of_def object_prototype_names_def)
  then have p: "js ''__proto__'' \<notin> set ps"
    using assms(4) no_inherited_readD by blast
  from allocate_complete[OF assms(1,4,2,3) rotate1_feasible[OF assms(2,3)]]
  obtain a where a: "allocateSecretSanta sh ps Map.empty = Inr (Some a)" ..
  then show ?thesis using allocate_sound[OF assms(1,2) p a] by blast
qed

theorem no_exclusions_gives_derangement_witness:
  "shuffler (\<lambda>k xs. xs) \<and> distinct [js ''ALICE'', js ''BOB'', js ''CAROL''] \<and>
   2 \<le> length [js ''ALICE'', js ''BOB'', js ''CAROL''] \<and>
   no_inherited_read [js ''ALICE'', js ''BOB'', js ''CAROL''] Map.empty \<and>
   (\<exists>a. allocateSecretSanta (\<lambda>k xs. xs) [js ''ALICE'', js ''BOB'', js ''CAROL''] Map.empty
           = Inr (Some a) \<and>
        valid_allocation [js ''ALICE'', js ''BOB'', js ''CAROL''] Map.empty a)"
proof -
  have d: "distinct [js ''ALICE'', js ''BOB'', js ''CAROL'']" by (simp add: js_def)
  have n: "2 \<le> length [js ''ALICE'', js ''BOB'', js ''CAROL'']" by simp
  have own: "no_inherited_read [js ''ALICE'', js ''BOB'', js ''CAROL''] Map.empty"
    by (simp add: no_inherited_read_def excluded_of_def object_prototype_names_def js_def)
  show ?thesis
    using no_exclusions_gives_derangement[OF shuffler_id d n own] shuffler_id d n own by blast
qed

lemma trial_for_fixed_point: "ps \<noteq> [] \<Longrightarrow> trial_for ps ps ex 0 a = Inr None"
  by (subst trial_for.simps) simp

text \<open>
  C5 as stated, for every list of size at least 2, fails in two ways. On
  \<open>["A", "A"]\<close> every trial pairs A with A, and the search has no candidate for the
  first giver: the result is \<open>null\<close>. On \<open>["constructor", "B"]\<close>, two different names,
  the call throws a \<open>TypeError\<close>, since the empty exclusions inherit a property
  \<open>constructor\<close>.
\<close>

theorem no_derangement_returned:
  "2 \<le> length [js ''A'', js ''A''] \<and>
   allocateSecretSanta (\<lambda>k xs. xs) [js ''A'', js ''A''] Map.empty = Inr None \<and>
   distinct [js ''constructor'', js ''B''] \<and>
   allocateSecretSanta (\<lambda>k. rev) [js ''constructor'', js ''B''] Map.empty = Inl TypeError"
proof -
  have "trial_while (\<lambda>k xs. xs) [js ''A'', js ''A''] Map.empty 0 = (Inr None, maxAttempts)"
    by (rule trial_while_None) (simp_all add: trial_for_fixed_point)
  moreover have "allocateSystematic (\<lambda>k xs. xs) maxAttempts [js ''A'', js ''A''] Map.empty = Inr None"
    by (simp add: allocateSystematic_def backtrack.simps Let_def excluded_of_def
          object_prototype_names_def js_def)
  ultimately have a: "allocateSecretSanta (\<lambda>k xs. xs) [js ''A'', js ''A''] Map.empty = Inr None"
    by (simp add: allocateSecretSanta_def)
  have d: "distinct [js ''constructor'', js ''B'']" by (simp add: js_def)
  have "excluded_of Map.empty ([js ''constructor'', js ''B''] ! 0) = Inherited"
    by (simp add: excluded_of_def object_prototype_names_def)
  then have t: "allocateSecretSanta (\<lambda>k. rev) [js ''constructor'', js ''B''] Map.empty = Inl TypeError"
    by (intro first_giver_throws) simp_all
  show ?thesis using a d t by simp
qed



lemma passes_without_self: "passes (without_self ex) g r = passes ex g r"
  by (auto simp: passes_def excluded_of_def without_self_def split: option.splits)

lemma array_includes_without_self:
  "g \<noteq> r \<Longrightarrow> array_includes (excluded_of (without_self ex) g) r
     = array_includes (excluded_of ex g) r"
  by (auto simp: excluded_of_def without_self_def split: option.splits)

lemma giver_and_without_self:
  "giver_and g (excluded_of (without_self ex) g) = giver_and g (excluded_of ex g)"
  by (auto simp: excluded_of_def without_self_def split: option.splits)

lemma trial_for_without_self:
  "trial_for ps rs (without_self ex) i a = trial_for ps rs ex i a"
proof (induction ps rs ex i a rule: trial_for.induct)
  case (1 ps rs ex i a)
  show ?case
  proof (cases "i < length ps")
    case False
    then show ?thesis by (simp add: trial_for_end)
  next
    case lt: True
    show ?thesis
    proof (cases "ps ! i \<noteq> rs ! i \<and> array_includes (excluded_of ex (ps ! i)) (rs ! i) = Inr False")
      case True
      have "trial_for ps rs (without_self ex) (i + 1) (set_property a (ps ! i) (rs ! i))
          = trial_for ps rs ex (i + 1) (set_property a (ps ! i) (rs ! i))"
        by (rule "1.IH"[OF lt refl refl _ refl _ refl]) (use True in auto)
      then show ?thesis
        unfolding trial_for_step[OF lt] using True by (simp add: array_includes_without_self)
    next
      case False
      then show ?thesis
        unfolding trial_for_step[OF lt]
        by (auto simp: array_includes_without_self split: sum.splits bool.splits)
    qed
  qed
qed

lemma trial_while_without_self:
  "trial_while sh ps (without_self ex) k = trial_while sh ps ex k"
proof (induction sh ps ex k rule: trial_while.induct)
  case (1 sh ps ex k)
  show ?case
  proof (cases "k < maxAttempts")
    case False
    then show ?thesis by (simp add: trial_while_end)
  next
    case True
    show ?thesis
      unfolding trial_while_step[OF True] trial_for_without_self
      using "1.IH"[OF True] by (auto split: sum.splits option.splits)
  qed
qed

lemma backtrack_without_self:
  shows "backtrack sh ps (without_self ex) i s = backtrack sh ps ex i s"
    and "candidates_for sh ps (without_self ex) i cs s = candidates_for sh ps ex i cs s"
proof (induction sh ps ex i s and sh ps ex i cs s rule: backtrack_candidates_for.induct)
  case (1 sh ps ex i s)
  show ?case
  proof (cases "length ps \<le> i")
    case True
    then show ?thesis by (simp add: backtrack_end)
  next
    case False
    show ?thesis
    proof (cases "giver_and (ps ! i) (excluded_of ex (ps ! i))")
      case (Inl e)
      then show ?thesis using False
        by (simp add: backtrack.simps Let_def giver_and_without_self)
    next
      case (Inr excluded)
      define cs where "cs = sh (calls s) (filter (\<lambda>p. p \<notin> excluded \<and> p \<notin> used s) ps)"
      have l: "backtrack sh ps (without_self ex) i s
          = candidates_for sh ps (without_self ex) i cs (s\<lparr>calls := calls s + 1\<rparr>)"
        using False Inr by (simp add: backtrack.simps Let_def giver_and_without_self cs_def)
      have r: "backtrack sh ps ex i s = candidates_for sh ps ex i cs (s\<lparr>calls := calls s + 1\<rparr>)"
        using False Inr by (simp add: backtrack.simps Let_def cs_def)
      show ?thesis unfolding l r by (rule "1.IH"[OF False refl Inr cs_def])
    qed
  qed
next
  case (2 sh ps ex i s)
  show ?case by simp
next
  case (3 sh ps ex i r rest s)
  define s1 where "s1 = s\<lparr>allocation := set_property (allocation s) (ps ! i) r,
                          used := insert r (used s)\<rparr>"
  have sub': "backtrack sh ps (without_self ex) (i + 1) s1 = backtrack sh ps ex (i + 1) s1"
    using "3.IH"(1)[OF refl s1_def] .
  show ?case
  proof (cases "backtrack sh ps ex (i + 1) s1")
    case (Inl e)
    then show ?thesis using sub' by (simp add: Let_def s1_def)
  next
    case (Inr res)
    obtain b s2 where res: "res = (b, s2)" by (cases res)
    show ?thesis
    proof (cases b)
      case True
      then show ?thesis using Inr res sub' by (simp add: Let_def s1_def)
    next
      case False
      have "candidates_for sh ps (without_self ex) i rest
              (s2\<lparr>used := used s2 - {r}, allocation := delete_property (allocation s2) (ps ! i)\<rparr>)
          = candidates_for sh ps ex i rest
              (s2\<lparr>used := used s2 - {r}, allocation := delete_property (allocation s2) (ps ! i)\<rparr>)"
        using "3.IH"(2)[OF refl s1_def Inr[unfolded res] refl] False by simp
      then show ?thesis using Inr res sub' False by (simp add: Let_def s1_def)
    qed
  qed
qed

lemma allocateSystematic_without_self:
  "allocateSystematic sh k ps (without_self ex) = allocateSystematic sh k ps ex"
  by (simp add: allocateSystematic_def backtrack_without_self)

lemma allocate_without_self:
  "allocateSecretSanta sh ps (without_self ex) = allocateSecretSanta sh ps ex"
  by (simp add: allocateSecretSanta_def allocateSystematic_without_self
        trial_while_without_self split: prod.splits sum.splits option.splits)

text \<open>
  C8 (as amended). The engine checks one of the three preconditions: with fewer than two
  participants it returns \<open>null\<close> at once. It checks neither of the others: with at
  least two participants a first trial whose pairs all pass the two per-pair checks is
  returned, whether or not names repeat, and taking a participant's own name out of their
  exclusion array changes no result.
\<close>

theorem only_size_is_revalidated:
  "(length ps < 2 \<longrightarrow> allocateSecretSanta sh ps ex = Inr None) \<and>
   (2 \<le> length ps \<and> length (sh 0 ps) = length ps \<and> list_all2 (passes ex) ps (sh 0 ps) \<longrightarrow>
      allocateSecretSanta sh ps ex
        = Inr (Some (fold (\<lambda>j m. set_property m (ps ! j) (sh 0 ps ! j)) [0..<length ps]
                       Map.empty))) \<and>
   allocateSecretSanta sh ps (without_self ex) = allocateSecretSanta sh ps ex"
proof (intro conjI impI)
  show "allocateSecretSanta sh ps ex = Inr None" if "length ps < 2"
    using that by (simp add: allocateSecretSanta_def)
  show "allocateSecretSanta sh ps ex
        = Inr (Some (fold (\<lambda>j m. set_property m (ps ! j) (sh 0 ps ! j)) [0..<length ps]
                       Map.empty))"
    if h: "2 \<le> length ps \<and> length (sh 0 ps) = length ps \<and> list_all2 (passes ex) ps (sh 0 ps)"
  proof -
    have "trial_for ps (sh 0 ps) ex 0 Map.empty
        = Inr (Some (fold (\<lambda>j m. set_property m (ps ! j) (sh 0 ps ! j)) [0..<length ps]
                       Map.empty))"
      using h trial_for_passes[of "sh 0 ps" ps ex] by simp
    then show ?thesis using h
      by (simp add: allocateSecretSanta_def trial_while.simps[of _ _ _ 0] maxAttempts_def)
  qed
  show "allocateSecretSanta sh ps (without_self ex) = allocateSecretSanta sh ps ex"
    by (rule allocate_without_self)
qed

theorem only_size_is_revalidated_witness:
  "\<not> distinct [js ''A'', js ''A'', js ''B'', js ''B''] \<and>
   allocateSecretSanta (\<lambda>k. rev) [js ''A'', js ''A'', js ''B'', js ''B''] [js ''A'' \<mapsto> [js ''A'']]
     = Inr (Some [js ''A'' \<mapsto> js ''B'', js ''B'' \<mapsto> js ''A'']) \<and>
   length [js ''A''] < 2 \<and> allocateSecretSanta (\<lambda>k. rev) [js ''A''] Map.empty = Inr None"
proof -
  let ?ps = "[js ''A'', js ''A'', js ''B'', js ''B'']"
  let ?ex = "[js ''A'' \<mapsto> [js ''A'']]"
  have l: "2 \<le> length ?ps \<and> length (rev ?ps) = length ?ps \<and> list_all2 (passes ?ex) ?ps (rev ?ps)"
    by (simp add: passes_def excluded_of_def object_prototype_names_def js_def)
  have f: "fold (\<lambda>j m. set_property m (?ps ! j) (rev ?ps ! j)) [0..<length ?ps] Map.empty
     = [js ''A'' \<mapsto> js ''B'', js ''B'' \<mapsto> js ''A'']"
    by (simp add: upt_conv_Cons set_property_def js_def)
  have "allocateSecretSanta (\<lambda>k. rev) ?ps ?ex
      = Inr (Some (fold (\<lambda>j m. set_property m (?ps ! j) (rev ?ps ! j)) [0..<length ?ps] Map.empty))"
    using only_size_is_revalidated[of ?ps "\<lambda>k. rev" ?ex, THEN conjunct2, THEN conjunct1] l by (rule mp)
  then have a: "allocateSecretSanta (\<lambda>k. rev) ?ps ?ex
      = Inr (Some [js ''A'' \<mapsto> js ''B'', js ''B'' \<mapsto> js ''A''])"
    unfolding f .
  have s: "length [js ''A''] < 2" by simp
  have n: "allocateSecretSanta (\<lambda>k. rev) [js ''A''] Map.empty = Inr None"
    using only_size_is_revalidated[of "[js ''A'']" "\<lambda>k. rev" Map.empty, THEN conjunct1] s by (rule mp)
  have d: "\<not> distinct ?ps" by simp
  show ?thesis using d a s n by blast
qed

text \<open>
  C8 as stated, no engine-side check and no early rejection, fails on the size: the empty
  list is rejected by the guard of lines 9 to 11, where the trial loop on its own would
  have returned the empty mapping.
\<close>

theorem empty_list_rejected_early:
  "allocateSecretSanta (\<lambda>k xs. xs) [] Map.empty = Inr None \<and>
   trial_while (\<lambda>k xs. xs) [] Map.empty 0 = (Inr (Some Map.empty), 0)"
  by (simp add: allocateSecretSanta_def trial_while.simps[of _ _ _ 0] maxAttempts_def
        trial_for.simps)

section \<open>The payload codec: proofs\<close>

lemma unat_small: "n < 65536 \<Longrightarrow> unat (of_nat n :: jschar) = n"
  by (simp add: unat_of_nat)

lemma unat_hex_lower:
  assumes "n < 16"
  shows "unat (hex_lower n) = (if n < 10 then 48 + n else 87 + n)"
proof (cases "n < 10")
  case True
  then have "hex_lower n = of_nat (0x30 + n)" by (simp only: hex_lower_def if_True)
  moreover have "unat (of_nat (0x30 + n) :: jschar) = 0x30 + n"
    by (rule unat_small) (use True in arith)
  ultimately show ?thesis using True by simp
next
  case False
  then have "hex_lower n = of_nat (0x61 + (n - 10))" by (simp only: hex_lower_def if_False)
  moreover have "unat (of_nat (0x61 + (n - 10)) :: jschar) = 0x61 + (n - 10)"
    by (rule unat_small) (use assms in arith)
  ultimately show ?thesis using False by simp
qed

lemma unat_hex_upper:
  assumes "n < 16"
  shows "unat (hex_upper n) = (if n < 10 then 48 + n else 55 + n)"
proof (cases "n < 10")
  case True
  then have "hex_upper n = of_nat (0x30 + n)" by (simp only: hex_upper_def if_True)
  moreover have "unat (of_nat (0x30 + n) :: jschar) = 0x30 + n"
    by (rule unat_small) (use True in arith)
  ultimately show ?thesis using True by simp
next
  case False
  then have "hex_upper n = of_nat (0x41 + (n - 10))" by (simp only: hex_upper_def if_False)
  moreover have "unat (of_nat (0x41 + (n - 10)) :: jschar) = 0x41 + (n - 10)"
    by (rule unat_small) (use assms in arith)
  ultimately show ?thesis using False by simp
qed

lemma hex_value_hex_lower: "n < 16 \<Longrightarrow> hex_value (hex_lower n) = Some n"
  using unat_hex_lower[of n]
  by (auto simp: hex_value_def is_digit_def word_le_nat_alt split: if_splits)

lemma hex_value_hex_upper: "n < 16 \<Longrightarrow> hex_value (hex_upper n) = Some n"
  using unat_hex_upper[of n]
  by (auto simp: hex_value_def is_digit_def word_le_nat_alt split: if_splits)

lemma hex_lower_ascii: "n < 16 \<Longrightarrow> hex_lower n \<le> 0xFF"
  using unat_hex_lower[of n] by (auto simp: word_le_nat_alt split: if_splits)

lemma hex_digits_sum:
  "(n::nat) div 4096 * 4096 + n div 256 mod 16 * 256 + n div 16 mod 16 * 16 + n mod 16 = n"
proof -
  have d256: "n div 256 = n div 16 div 16" and d4096: "n div 4096 = n div 256 div 16"
    by (simp_all add: div_mult2_eq[symmetric])
  have a: "n div 16 = n div 256 * 16 + n div 16 mod 16"
    unfolding d256 by simp
  have b: "n div 256 = n div 4096 * 16 + n div 256 mod 16"
    unfolding d4096 by simp
  have "n = n div 16 * 16 + n mod 16" by simp
  also have "n div 16 * 16 = (n div 256 * 16 + n div 16 mod 16) * 16"
    using a by simp
  also have "n div 256 * 16 = (n div 4096 * 16 + n div 256 mod 16) * 16"
    using b by simp
  finally show ?thesis by simp
qed

lemma hex4_unicode_escape:
  "hex4 (hex_lower (unat c div 4096)) (hex_lower (unat c div 256 mod 16))
        (hex_lower (unat c div 16 mod 16)) (hex_lower (unat c mod 16)) = Some c"
proof -
  let ?n = "unat c"
  have n: "?n < 65536" using unsigned_less[of c] by simp
  then have d: "?n div 4096 < 16" by simp
  have "of_nat (?n div 4096 * 4096 + ?n div 256 mod 16 * 256 + ?n div 16 mod 16 * 16 + ?n mod 16) = c"
    unfolding hex_digits_sum by simp
  then show ?thesis
    using d by (simp add: hex4_def hex_value_hex_lower)
qed

lemma lex_string_literal:
  "c \<noteq> 0x22 \<Longrightarrow> c \<noteq> 0x5C \<Longrightarrow> \<not> c < 0x20 \<Longrightarrow>
   lex_string (c # rest) = cons_string c (lex_string rest)"
  by simp

lemma lex_string_unicode_escape:
  "lex_string (unicode_escape c @ rest) = cons_string c (lex_string rest)"
  using hex4_unicode_escape[of c] by (simp add: unicode_escape_def Let_def)

lemma surrogate_literal:
  assumes "is_lead c \<or> is_trail c"
  shows "c \<noteq> 0x22" "c \<noteq> 0x5C" "\<not> c < 0x20"
  using assms by (auto simp: is_lead_def is_trail_def word_le_nat_alt word_less_nat_alt)

lemma lex_string_quote_unit:
  "lex_string (quote_unit c @ rest) = cons_string c (lex_string rest)"
proof -
  consider "c = 0x08" | "c = 0x09" | "c = 0x0A" | "c = 0x0C" | "c = 0x0D" | "c = 0x22"
    | "c = 0x5C"
    | "c \<notin> {0x08, 0x09, 0x0A, 0x0C, 0x0D, 0x22, 0x5C}" "c < 0x20"
    | "c \<notin> {0x08, 0x09, 0x0A, 0x0C, 0x0D, 0x22, 0x5C}" "\<not> c < 0x20"
    by blast
  then show ?thesis
  proof cases
    case 8
    then show ?thesis by (simp add: quote_unit_def lex_string_unicode_escape)
  next
    case 9
    then show ?thesis by (simp add: quote_unit_def)
  qed (simp_all add: quote_unit_def simple_escape_def)
qed

lemma lex_string_quote_units:
  "lex_string (quote_units s @ 0x22 # rest) = Some (s, rest)"
proof (induction s rule: quote_units.induct)
  case 1
  show ?case by simp
next
  case (2 c)
  show ?case
    by (simp add: lex_string_unicode_escape lex_string_quote_unit)
next
  case (3 c c' cs)
  show ?case
  proof (cases "is_lead c \<and> is_trail c'")
    case True
    then have "lex_string (c # c' # quote_units cs @ 0x22 # rest)
        = cons_string c (cons_string c' (lex_string (quote_units cs @ 0x22 # rest)))"
      using surrogate_literal[of c] surrogate_literal[of c']
      by (simp add: lex_string_literal)
    then show ?thesis using True "3.IH"(1) by simp
  next
    case False
    then show ?thesis
      using "3.IH"(2,3,4)
      by (auto simp: lex_string_unicode_escape lex_string_quote_unit)
  qed
qed

lemma lex_QuoteJSONString:
  "lex (QuoteJSONString s @ rest) = cons_token (TString s) (lex rest)"
  by (simp add: QuoteJSONString_def lex.simps lex_string_quote_units is_json_whitespace_def)

lemma lex_punctuation:
  "lex (js ''{'' @ rest) = cons_token TLBrace (lex rest)"
  "lex (js ''}'' @ rest) = cons_token TRBrace (lex rest)"
  "lex (js '':'' @ rest) = cons_token TColon (lex rest)"
  "lex (js '','' @ rest) = cons_token TComma (lex rest)"
  by (simp_all add: js_def lex.simps is_json_whitespace_def)

lemma lex_json_member:
  "lex (json_member m @ rest)
     = cons_token (TString (fst m)) (cons_token TColon (cons_token (TString (snd m)) (lex rest)))"
  by (simp add: json_member_def lex_QuoteJSONString lex_punctuation)

lemma is_payload_cases:
  assumes "is_payload p"
  obtains m1 m2 m3 m4 where "p = [m1, m2, m3, m4]"
proof -
  from assms have "length p = 4" by (simp add: is_payload_def)
  then obtain m1 m2 m3 m4 where "p = [m1, m2, m3, m4]"
    by (auto simp: length_Suc_conv numeral_eq_Suc)
  then show ?thesis by (rule that)
qed

lemma lex_JSON_stringify:
  "lex (JSON_stringify [m1, m2, m3, m4]) =
     Some [TLBrace, TString (fst m1), TColon, TString (snd m1), TComma,
           TString (fst m2), TColon, TString (snd m2), TComma,
           TString (fst m3), TColon, TString (snd m3), TComma,
           TString (fst m4), TColon, TString (snd m4), TRBrace]"
proof -
  have e: "lex (js ''}'') = Some [TRBrace]"
    using lex_punctuation(2)[of "[]"] by (simp add: lex.simps)
  show ?thesis
    unfolding JSON_stringify_def list.map comma_separated.simps
    by (simp only: append_assoc lex_punctuation lex_json_member e cons_token.simps)
qed

lemma JSON_parse_stringify:
  assumes "is_payload p"
  shows "JSON_parse (JSON_stringify p) = Inr (to_json p)"
proof -
  from assms obtain m1 m2 m3 m4 where p: "p = [m1, m2, m3, m4]" by (rule is_payload_cases)
  show ?thesis unfolding p by (simp add: JSON_parse_def lex_JSON_stringify to_json_def)
qed

lemma base64_encode_split:
  "base64_encode bs = map b64_char (sextets bs) @ padding bs"
  by (induction bs rule: base64_encode.induct) simp_all

lemma byte_div:
  "(b::nat) < 256 \<Longrightarrow> b div 16 < 16" "(b::nat) < 256 \<Longrightarrow> b div 64 < 4"
  "(b::nat) < 256 \<Longrightarrow> b div 4 < 64"
  by arith+

lemma sextets_bound: "list_all (\<lambda>b. b < 256) bs \<Longrightarrow> list_all (\<lambda>x. x < 64) (sextets bs)"
proof (induction bs rule: sextets.induct)
  case (2 a)
  have "a mod 4 < 4" by simp
  then have "a mod 4 * 16 < 64" by arith
  then show ?case using 2 by (simp add: byte_div)
next
  case (3 a b)
  have "a mod 4 < 4" "b mod 16 < 16" "b div 16 < 16" using 3 by (simp_all add: byte_div)
  then have "a mod 4 * 16 + b div 16 < 64" "b mod 16 * 4 < 64" by arith+
  then show ?case using 3 by (simp add: byte_div)
next
  case (4 a b c bs)
  have "a mod 4 < 4" "b mod 16 < 16" "b div 16 < 16" "c div 64 < 4"
    using 4 by (simp_all add: byte_div)
  then have "a mod 4 * 16 + b div 16 < 64" "b mod 16 * 4 + c div 64 < 64" by arith+
  then show ?case using 4 by (simp add: byte_div)
qed simp

lemma base64_decode_sextets:
  "list_all (\<lambda>b. b < 256) bs \<Longrightarrow> base64_decode (sextets bs) = bs"
proof (induction bs rule: sextets.induct)
  case (2 a)
  have "a div 4 * 4 + a mod 4 * 16 div 16 = a" by simp
  then show ?case by simp
next
  case (3 a b)
  have b: "b div 16 < 16" using 3 by (simp add: byte_div)
  have "(a mod 4 * 16 + b div 16) div 16 = a mod 4" using b by simp
  moreover have "(a mod 4 * 16 + b div 16) mod 16 = b div 16" using b by simp
  moreover have "b mod 16 * 4 div 4 = b mod 16" by simp
  ultimately show ?case by simp
next
  case (4 a b c bs)
  have b: "b div 16 < 16" and c: "c div 64 < 4" using 4 by (simp_all add: byte_div)
  have "(a mod 4 * 16 + b div 16) div 16 = a mod 4" using b by simp
  moreover have "(a mod 4 * 16 + b div 16) mod 16 = b div 16" using b by simp
  moreover have "(b mod 16 * 4 + c div 64) div 4 = b mod 16" using c by simp
  moreover have "(b mod 16 * 4 + c div 64) mod 4 = c div 64" using c by simp
  ultimately show ?case using 4 by simp
qed simp

lemma unat_b64_char:
  assumes "n < 64"
  shows "unat (b64_char n) =
     (if n < 26 then 65 + n else if n < 52 then 71 + n
      else if n < 62 then n - 4 else if n = 62 then 43 else 47)"
proof -
  consider "n < 26" | "\<not> n < 26" "n < 52" | "\<not> n < 26" "\<not> n < 52" "n < 62"
    | "n = 62" | "n = 63"
    using assms by arith
  then show ?thesis
  proof cases
    case 1
    then have "b64_char n = of_nat (0x41 + n)" by (simp only: b64_char_def if_True)
    moreover have "unat (of_nat (0x41 + n) :: jschar) = 0x41 + n"
      by (rule unat_small) (use 1 in arith)
    ultimately show ?thesis using 1 by simp
  next
    case 2
    then have "b64_char n = of_nat (0x61 + (n - 26))"
      by (simp only: b64_char_def if_True if_False)
    moreover have "unat (of_nat (0x61 + (n - 26)) :: jschar) = 0x61 + (n - 26)"
      by (rule unat_small) (use 2 in arith)
    ultimately show ?thesis using 2 by simp
  next
    case 3
    then have "b64_char n = of_nat (0x30 + (n - 52))"
      by (simp only: b64_char_def if_True if_False)
    moreover have "unat (of_nat (0x30 + (n - 52)) :: jschar) = 0x30 + (n - 52)"
      by (rule unat_small) (use 3 in arith)
    ultimately show ?thesis using 3 by simp
  next
    case 4
    then show ?thesis by (simp add: b64_char_def)
  next
    case 5
    then show ?thesis by (simp add: b64_char_def)
  qed
qed

lemma b64_char_props:
  assumes "n < 64"
  shows "b64_value (b64_char n) = n" and "is_b64_char (b64_char n)"
    and "b64_char n \<noteq> 0x3D" and "\<not> is_ascii_whitespace (b64_char n)"
    and "b64_char n < 0x80"
proof -
  define u where "u = unat (b64_char n)"
  have u: "u = (if n < 26 then 65 + n else if n < 52 then 71 + n
      else if n < 62 then n - 4 else if n = 62 then 43 else 47)"
    unfolding u_def by (rule unat_b64_char[OF assms])
  note defs = b64_value_def is_b64_char_def is_ascii_whitespace_def is_upper_def
    is_lower_def is_digit_def word_le_nat_alt word_less_nat_alt
    word_eq_iff_unsigned[where 'a = nat]
  show "b64_value (b64_char n) = n"
    using assms unat_b64_char[OF assms] by (auto simp: defs split: if_splits)
  show "is_b64_char (b64_char n)"
    using assms unat_b64_char[OF assms] by (auto simp: defs split: if_splits)
  show "b64_char n \<noteq> 0x3D" "\<not> is_ascii_whitespace (b64_char n)" "b64_char n < 0x80"
    using assms unat_b64_char[OF assms] by (auto simp: defs split: if_splits)
qed

lemma length_base64_encode: "length (base64_encode bs) mod 4 = 0"
  by (induction bs rule: base64_encode.induct) simp_all

lemma length_sextets: "length (sextets bs) mod 4 \<noteq> 1"
  by (induction bs rule: sextets.induct) simp_all

lemma padding_cases: "padding bs = [] \<or> padding bs = [0x3D] \<or> padding bs = [0x3D, 0x3D]"
  by (induction bs rule: padding.induct) simp_all

lemma strip_padding_append:
  assumes "0x3D \<notin> set xs" "pad = [] \<or> pad = [0x3D] \<or> pad = [0x3D, 0x3D]"
  shows "strip_padding (xs @ pad) = xs"
proof -
  have l: "xs \<noteq> [] \<Longrightarrow> last xs \<noteq> 0x3D" using assms(1) last_in_set by metis
  from assms(2) show ?thesis
  proof (elim disjE)
    assume "pad = []"
    then show ?thesis using l by (auto simp: strip_padding_def)
  next
    assume "pad = [0x3D]"
    then show ?thesis using l by (auto simp: strip_padding_def)
  next
    assume "pad = [0x3D, 0x3D]"
    then show ?thesis by (simp add: strip_padding_def butlast_append)
  qed
qed

lemma atob_base64_encode:
  assumes b: "list_all (\<lambda>b. b < 256) bs"
  shows "atob (base64_encode bs) = Inr (map of_nat bs)"
proof -
  let ?sx = "sextets bs"
  let ?body = "map b64_char ?sx"
  have sx: "\<forall>x\<in>set ?sx. x < 64" using sextets_bound[OF b] by (simp add: list_all_iff)
  have enc: "base64_encode bs = ?body @ padding bs" by (rule base64_encode_split)
  have nopad: "0x3D \<notin> set ?body" using sx b64_char_props(3) by auto
  have "\<forall>c\<in>set (base64_encode bs). \<not> is_ascii_whitespace c"
    unfolding enc using sx b64_char_props(4) padding_cases[of bs]
    by (auto simp: is_ascii_whitespace_def)
  then have f: "filter (\<lambda>c. \<not> is_ascii_whitespace c) (base64_encode bs) = base64_encode bs"
    by (simp add: filter_id_conv)
  have s: "strip_padding (base64_encode bs) = ?body"
    unfolding enc using nopad padding_cases[of bs] by (rule strip_padding_append)
  have l: "length ?body mod 4 \<noteq> 1" using length_sextets[of bs] by simp
  have a: "list_all is_b64_char ?body"
    using sx b64_char_props(2) by (simp add: list_all_iff)
  have v: "map b64_value ?body = ?sx"
    using sx b64_char_props(1) by (simp add: map_idI)
  show ?thesis
    unfolding atob_def f
    using length_base64_encode[of bs] s l a v base64_decode_sextets[OF b]
    by (simp add: Let_def)
qed

lemma atob_btoa:
  assumes "btoa s = Inr b"
  shows "atob b = Inr s"
proof -
  from assms have b: "b = base64_encode (map unat s)" and l: "\<not> list_ex (\<lambda>c. 0xFF < c) s"
    by (auto simp: btoa_def split: if_splits)
  have "list_all (\<lambda>b. b < 256) (map unat s)"
    using l by (auto simp: list_all_iff list_ex_iff word_less_nat_alt not_less)
  from atob_base64_encode[OF this] show ?thesis unfolding b by (simp add: map_idI)
qed

lemma ascii_not_surrogate:
  assumes "c < 0x80"
  shows "\<not> is_lead c" "\<not> is_trail c" "unat c < 0x80"
  using assms by (auto simp: is_lead_def is_trail_def word_le_nat_alt word_less_nat_alt)

lemma encodeURIComponent_ascii_step:
  assumes "c < 0x80"
  shows "encodeURIComponent (c # cs) = prepend (uri_ascii c) (encodeURIComponent cs)"
proof (cases cs)
  case Nil
  then show ?thesis
    using ascii_not_surrogate[OF assms] by (simp add: uri_ascii_def utf8_octets_def)
next
  case (Cons c' cs')
  then show ?thesis
    using ascii_not_surrogate[OF assms] by (simp add: uri_ascii_def utf8_octets_def)
qed

lemma encodeURIComponent_ascii:
  "list_all (\<lambda>c. c < 0x80) s \<Longrightarrow> encodeURIComponent s = Inr (concat (map uri_ascii s))"
  by (induction s) (simp_all add: encodeURIComponent_ascii_step)

lemma hex_octet_percent:
  assumes "n < 256"
  shows "hex_octet (hex_upper (n div 16)) (hex_upper (n mod 16)) = Some n"
proof -
  have "n div 16 < 16" using assms by arith
  then show ?thesis by (simp add: hex_octet_def hex_value_hex_upper)
qed

lemma unreserved_not_percent: "is_unreserved c \<Longrightarrow> c \<noteq> 0x25"
  by (auto simp: is_unreserved_def is_upper_def is_lower_def is_digit_def)

lemma decodeURIComponent_ascii_step:
  assumes "c < 0x80"
  shows "decodeURIComponent (uri_ascii c @ rest) = prepend [c] (decodeURIComponent rest)"
proof (cases "is_unreserved c")
  case True
  then show ?thesis
    using unreserved_not_percent[OF True] by (simp add: uri_ascii_def decodeURIComponent.simps)
next
  case False
  have n: "unat c < 0x80" using ascii_not_surrogate[OF assms] by simp
  then have "hex_octet (hex_upper (unat c div 16)) (hex_upper (unat c mod 16)) = Some (unat c)"
    by (intro hex_octet_percent) simp
  then show ?thesis
    using False n by (simp add: uri_ascii_def percent_def decodeURIComponent.simps)
qed

lemma decodeURIComponent_ascii:
  "list_all (\<lambda>c. c < 0x80) s \<Longrightarrow> decodeURIComponent (concat (map uri_ascii s)) = Inr s"
  by (induction s) (simp_all add: decodeURIComponent_ascii_step decodeURIComponent.simps)

lemma base64_encode_ascii:
  assumes "list_all (\<lambda>b. b < 256) bs"
  shows "list_all (\<lambda>c. c < 0x80) (base64_encode bs)"
proof -
  have sx: "\<forall>x\<in>set (sextets bs). x < 64" using sextets_bound[OF assms] by (simp add: list_all_iff)
  show ?thesis
    unfolding base64_encode_split using sx b64_char_props(5) padding_cases[of bs]
    by (auto simp: list_all_iff)
qed

lemma latin1_append [simp]: "latin1 (xs @ ys) \<longleftrightarrow> latin1 xs \<and> latin1 ys"
  by (simp add: latin1_def)

lemma latin1_Cons [simp]: "latin1 (c # cs) \<longleftrightarrow> c \<le> 0xFF \<and> latin1 cs"
  by (simp add: latin1_def)

lemma latin1_Nil [simp]: "latin1 []"
  by (simp add: latin1_def)

lemma latin1_not_surrogate:
  assumes "c \<le> 0xFF"
  shows "\<not> is_lead c" "\<not> is_trail c"
  using assms by (auto simp: is_lead_def is_trail_def word_le_nat_alt)

lemma latin1_unicode_escape: "latin1 (unicode_escape c)"
proof -
  have "unat c < 65536" using unsigned_less[of c] by simp
  then have "unat c div 4096 < 16" by simp
  then show ?thesis by (simp add: unicode_escape_def Let_def hex_lower_ascii)
qed

lemma latin1_quote_unit: "c \<le> 0xFF \<Longrightarrow> latin1 (quote_unit c)"
  by (simp add: quote_unit_def latin1_unicode_escape)

lemma latin1_quote_units: "latin1 s \<Longrightarrow> latin1 (quote_units s)"
  by (induction s rule: quote_units.induct)
     (simp_all add: latin1_not_surrogate latin1_quote_unit)

lemma latin1_QuoteJSONString: "latin1 s \<Longrightarrow> latin1 (QuoteJSONString s)"
  by (simp add: QuoteJSONString_def latin1_quote_units)

lemma latin1_punctuation:
  "latin1 (js ''{'')" "latin1 (js ''}'')" "latin1 (js '':'')" "latin1 (js '','')"
  by (simp_all add: js_def)

lemma latin1_comma_separated:
  "latin1 (comma_separated xs) \<longleftrightarrow> list_all latin1 xs"
  by (induction xs rule: comma_separated.induct) (simp_all add: latin1_punctuation)

lemma latin1_payload_keys: "k \<in> set payload_keys \<Longrightarrow> latin1 k"
  by (auto simp: payload_keys_def js_def)

lemma escapable_quote_units: "latin1 (quote_units s) \<longleftrightarrow> escapable s"
proof (induction s rule: quote_units.induct)
  case 1
  show ?case by simp
next
  case (2 c)
  show ?case
  proof (cases "is_lead c \<or> is_trail c")
    case True
    then show ?thesis by (auto simp: latin1_unicode_escape)
  next
    case False
    show ?thesis
    proof (cases "c \<le> 0xFF")
      case True
      then show ?thesis using False by (auto simp: latin1_quote_unit)
    next
      case high: False
      then have "quote_unit c = [c]"
        by (auto simp: quote_unit_def not_le word_less_nat_alt word_le_nat_alt)
      then show ?thesis using False high by simp
    qed
  qed
next
  case (3 c c' cs)
  show ?case
  proof (cases "is_lead c")
    case lead: True
    then have h: "\<not> c \<le> 0xFF" by (auto simp: is_lead_def word_le_nat_alt)
    show ?thesis
    proof (cases "is_trail c'")
      case True
      then show ?thesis using lead h by simp
    next
      case False
      then show ?thesis using lead 3 by (auto simp: latin1_unicode_escape)
    qed
  next
    case nl: False
    show ?thesis
    proof (cases "is_trail c")
      case True
      then show ?thesis using nl 3 by (auto simp: latin1_unicode_escape)
    next
      case nt: False
      show ?thesis
      proof (cases "c \<le> 0xFF")
        case True
        then show ?thesis using nl nt 3 by (auto simp: latin1_quote_unit)
      next
        case high: False
        then have "quote_unit c = [c]"
          by (auto simp: quote_unit_def not_le word_less_nat_alt word_le_nat_alt)
        then show ?thesis using nl nt high by simp
      qed
    qed
  qed
qed

lemma escapable_QuoteJSONString: "latin1 (QuoteJSONString s) \<longleftrightarrow> escapable s"
  by (simp add: QuoteJSONString_def escapable_quote_units)

lemma latin1_escapable: "latin1 s \<Longrightarrow> escapable s"
  using latin1_QuoteJSONString escapable_QuoteJSONString by blast

lemma latin1_JSON_stringify_iff:
  assumes "is_payload p"
  shows "latin1 (JSON_stringify p) \<longleftrightarrow> escapable_payload p"
proof -
  have k: "escapable (fst m)" if "m \<in> set p" for m
  proof -
    have "fst m \<in> set payload_keys" using assms that by (auto simp: is_payload_def)
    then show ?thesis using latin1_payload_keys latin1_escapable by blast
  qed
  have "list_all latin1 (map json_member p) \<longleftrightarrow> list_all (\<lambda>m. escapable (snd m)) p"
    using k
    by (auto simp: list_all_iff json_member_def escapable_QuoteJSONString latin1_punctuation)
  then show ?thesis
    by (simp add: JSON_stringify_def latin1_comma_separated latin1_punctuation
          escapable_payload_def)
qed

lemma latin1_JSON_stringify:
  assumes "is_payload p" "latin1_payload p"
  shows "latin1 (JSON_stringify p)"
proof -
  have "escapable_payload p"
    using assms(2) latin1_escapable by (auto simp: latin1_payload_def escapable_payload_def list_all_iff)
  then show ?thesis using latin1_JSON_stringify_iff[OF assms(1)] by simp
qed

lemma btoa_latin1:
  "btoa s = (if latin1 s then Inr (base64_encode (map unat s)) else Inl InvalidCharacterError)"
  by (auto simp: btoa_def latin1_def list_all_iff list_ex_iff not_le)

lemma latin1_bytes: "latin1 s \<Longrightarrow> list_all (\<lambda>b. b < 256) (map unat s)"
  by (auto simp: latin1_def list_all_iff word_le_nat_alt)

lemma encodePayload_eq:
  "encodePayload p =
     (if latin1 (JSON_stringify p)
      then Inr (concat (map uri_ascii (base64_encode (map unat (rev (JSON_stringify p))))))
      else Inl InvalidCharacterError)"
proof (cases "latin1 (JSON_stringify p)")
  case True
  then have l: "latin1 (rev (JSON_stringify p))" by (simp add: latin1_def)
  have "list_all (\<lambda>c. c < 0x80) (base64_encode (map unat (rev (JSON_stringify p))))"
    using latin1_bytes[OF l] by (rule base64_encode_ascii)
  then show ?thesis
    using True l by (simp add: encodePayload_def btoa_latin1 encodeURIComponent_ascii Let_def)
next
  case False
  then have "\<not> latin1 (rev (JSON_stringify p))" by (simp add: latin1_def)
  then show ?thesis using False by (simp add: encodePayload_def btoa_latin1 Let_def)
qed

lemma is_string_to_json:
  assumes "k \<in> set (map fst p)"
  shows "is_string (map_of (rev (map (\<lambda>m. (fst m, JString (snd m))) p)) k)"
proof -
  have "k \<in> fst ` set (rev (map (\<lambda>m. (fst m, JString (snd m))) p))"
    using assms by force
  then obtain v where v: "map_of (rev (map (\<lambda>m. (fst m, JString (snd m))) p)) k = Some v"
    by (metis map_of_eq_None_iff not_Some_eq)
  then have "(k, v) \<in> set (rev (map (\<lambda>m. (fst m, JString (snd m))) p))" by (rule map_of_SomeD)
  then obtain s where "v = JString s" by auto
  then show ?thesis using v by simp
qed

lemma typeof_string_to_json:
  assumes "is_payload p"
  shows "typeof_string (to_json p) ''t'' = Inr True" "typeof_string (to_json p) ''d'' = Inr True"
    "typeof_string (to_json p) ''g'' = Inr True" "typeof_string (to_json p) ''r'' = Inr True"
proof -
  have "js ''t'' \<in> set (map fst p)" "js ''d'' \<in> set (map fst p)"
    "js ''g'' \<in> set (map fst p)" "js ''r'' \<in> set (map fst p)"
    using assms by (simp_all add: is_payload_def payload_keys_def)
  then show "typeof_string (to_json p) ''t'' = Inr True"
    "typeof_string (to_json p) ''d'' = Inr True"
    "typeof_string (to_json p) ''g'' = Inr True" "typeof_string (to_json p) ''r'' = Inr True"
    by (simp_all add: typeof_string_def to_json_def is_string_to_json)
qed

lemma decode_encode:
  assumes pl: "is_payload p" and "encodePayload p = Inr token"
  shows "decodePayload token = Some (to_json p)"
proof -
  let ?json = "JSON_stringify p"
  let ?b64 = "base64_encode (map unat (rev ?json))"
  from assms(2) have l: "latin1 ?json" and tk: "token = concat (map uri_ascii ?b64)"
    unfolding encodePayload_eq by (simp_all split: if_splits)
  have lr: "latin1 (rev ?json)" using l by (simp add: latin1_def)
  have "list_all (\<lambda>c. c < 0x80) ?b64"
    using latin1_bytes[OF lr] by (rule base64_encode_ascii)
  then have u: "decodeURIComponent token = Inr ?b64"
    unfolding tk by (rule decodeURIComponent_ascii)
  have "btoa (rev ?json) = Inr ?b64" using lr by (simp add: btoa_latin1)
  then have a: "atob ?b64 = Inr (rev ?json)" by (rule atob_btoa)
  show ?thesis
    by (simp add: decodePayload_def decode_try_def u a JSON_parse_stringify[OF pl]
          typeof_string_to_json[OF pl] and_then_def)
qed

lemma round_trip_iff:
  assumes "is_payload p"
  shows "round_trip p = Inr (Some (to_json p)) \<longleftrightarrow> (\<exists>token. encodePayload p = Inr token)"
proof
  assume "round_trip p = Inr (Some (to_json p))"
  then show "\<exists>token. encodePayload p = Inr token"
    by (cases "encodePayload p") (simp_all add: round_trip_def)
next
  assume "\<exists>token. encodePayload p = Inr token"
  then obtain token where t: "encodePayload p = Inr token" ..
  then show "round_trip p = Inr (Some (to_json p))"
    using decode_encode[OF assms t] by (simp add: round_trip_def)
qed

lemma encode_latin1:
  "is_payload p \<Longrightarrow> latin1_payload p \<Longrightarrow> \<exists>token. encodePayload p = Inr token"
  unfolding encodePayload_eq using latin1_JSON_stringify by simp

lemma encode_returns_iff:
  "is_payload p \<Longrightarrow> (\<exists>token. encodePayload p = Inr token) \<longleftrightarrow> escapable_payload p"
  unfolding encodePayload_eq using latin1_JSON_stringify_iff by simp

text \<open>
  C2. The round trip fails on a record that the form of the application can produce. For
  the title U+0141, a capital letter that the form's upper-casing leaves as it is,
  \<open>btoa\<close> throws inside \<open>encodePayload\<close>; nothing catches the exception, so no
  token is returned and there is nothing to decode.
\<close>

theorem round_trip_raises_outside_latin1:
  "is_payload (payload_literal [0x141] [] (js ''ALICE'') (js ''BOB'')) \<and>
   round_trip (payload_literal [0x141] [] (js ''ALICE'') (js ''BOB''))
     = Inl InvalidCharacterError"
proof -
  have "is_payload (payload_literal [0x141] [] (js ''ALICE'') (js ''BOB''))"
    by (simp add: is_payload_def payload_literal_def payload_keys_def)
  moreover have "round_trip (payload_literal [0x141] [] (js ''ALICE'') (js ''BOB''))
     = Inl InvalidCharacterError"
    by code_simp
  ultimately show ?thesis by simp
qed

text \<open>
  C10 (as amended). \<open>encodePayload\<close> is partial: for a payload with the character
  U+20AC, which is above 255, \<open>btoa\<close> throws \<open>InvalidCharacterError\<close>; for every
  payload whose four strings hold only code units up to \<open>0xFF\<close> it returns a token.
  The round trip holds exactly where \<open>encodePayload\<close> returns, and it returns exactly
  for the payloads in which every code unit above \<open>0xFF\<close> is a surrogate on its own:
  on all of the Latin-1 domain, and on more.
\<close>

theorem encode_partial_outside_latin1:
  "\<not> latin1_payload (payload_literal [0x20AC] [] (js ''A'') (js ''B'')) \<and>
   encodePayload (payload_literal [0x20AC] [] (js ''A'') (js ''B'')) = Inl InvalidCharacterError \<and>
   (is_payload p \<and> latin1_payload p \<longrightarrow> (\<exists>token. encodePayload p = Inr token)) \<and>
   (is_payload p \<longrightarrow>
      (round_trip p = Inr (Some (to_json p)) \<longleftrightarrow> (\<exists>token. encodePayload p = Inr token))) \<and>
   (is_payload p \<longrightarrow> ((\<exists>token. encodePayload p = Inr token) \<longleftrightarrow> escapable_payload p))"
proof (intro conjI impI)
  show "\<not> latin1_payload (payload_literal [0x20AC] [] (js ''A'') (js ''B''))"
    by (simp add: latin1_payload_def payload_literal_def)
  show "encodePayload (payload_literal [0x20AC] [] (js ''A'') (js ''B'')) = Inl InvalidCharacterError"
    by code_simp
  show "\<exists>token. encodePayload p = Inr token" if "is_payload p \<and> latin1_payload p"
    using that encode_latin1 by blast
  show "round_trip p = Inr (Some (to_json p)) \<longleftrightarrow> (\<exists>token. encodePayload p = Inr token)"
    if "is_payload p"
    using that by (rule round_trip_iff)
  show "(\<exists>token. encodePayload p = Inr token) \<longleftrightarrow> escapable_payload p" if "is_payload p"
    using that by (rule encode_returns_iff)
qed

theorem encode_partial_outside_latin1_witness:
  "is_payload (payload_literal (js ''NO'' @ [0xCB] @ js ''L'') [0xA9] (js ''ZO'' @ [0xCB]) (js ''BOB'')) \<and>
   latin1_payload (payload_literal (js ''NO'' @ [0xCB] @ js ''L'') [0xA9] (js ''ZO'' @ [0xCB]) (js ''BOB'')) \<and>
   escapable_payload (payload_literal (js ''NO'' @ [0xCB] @ js ''L'') [0xA9] (js ''ZO'' @ [0xCB]) (js ''BOB'')) \<and>
   (\<exists>token. encodePayload (payload_literal (js ''NO'' @ [0xCB] @ js ''L'') [0xA9] (js ''ZO'' @ [0xCB]) (js ''BOB''))
              = Inr token) \<and>
   round_trip (payload_literal (js ''NO'' @ [0xCB] @ js ''L'') [0xA9] (js ''ZO'' @ [0xCB]) (js ''BOB''))
     = Inr (Some (JObject [(js ''t'', JString (js ''NO'' @ [0xCB] @ js ''L'')), (js ''d'', JString [0xA9]),
                           (js ''g'', JString (js ''ZO'' @ [0xCB])), (js ''r'', JString (js ''BOB''))]))"
proof -
  let ?p = "payload_literal (js ''NO'' @ [0xCB] @ js ''L'') [0xA9] (js ''ZO'' @ [0xCB]) (js ''BOB'')"
  have i: "is_payload ?p" by (simp add: is_payload_def payload_literal_def payload_keys_def)
  have l: "latin1_payload ?p" by (simp add: latin1_payload_def payload_literal_def js_def)
  have j: "to_json ?p = JObject [(js ''t'', JString (js ''NO'' @ [0xCB] @ js ''L'')), (js ''d'', JString [0xA9]),
                           (js ''g'', JString (js ''ZO'' @ [0xCB])), (js ''r'', JString (js ''BOB''))]"
    by (simp add: to_json_def payload_literal_def)
  show ?thesis using encode_partial_outside_latin1[of ?p] i l unfolding j by blast
qed

text \<open>
  C10 as stated ends with the round trip holding only on the Latin-1 domain. That fails
  on a title that is a lead surrogate on its own, \<open>0xD800\<close>: it is above 255, but
  \<open>JSON.stringify\<close> writes it as the escape \<open>\\ud800\<close>, so \<open>btoa\<close> accepts the
  text and the record comes back from \<open>decodePayload\<close>.
\<close>

theorem round_trip_outside_latin1:
  "is_payload (payload_literal [0xD800] [] (js ''A'') (js ''B'')) \<and>
   \<not> latin1_payload (payload_literal [0xD800] [] (js ''A'') (js ''B'')) \<and>
   round_trip (payload_literal [0xD800] [] (js ''A'') (js ''B''))
     = Inr (Some (JObject [(js ''t'', JString [0xD800]), (js ''d'', JString []),
                           (js ''g'', JString (js ''A'')), (js ''r'', JString (js ''B''))]))"
proof -
  let ?p = "payload_literal [0xD800] [] (js ''A'') (js ''B'')"
  have i: "is_payload ?p" by (simp add: is_payload_def payload_literal_def payload_keys_def)
  have n: "\<not> latin1_payload ?p" by (simp add: latin1_payload_def payload_literal_def)
  have "escapable_payload ?p"
    by (simp add: escapable_payload_def payload_literal_def is_lead_def js_def)
  then have "\<exists>token. encodePayload ?p = Inr token" using encode_returns_iff[OF i] by simp
  then have "round_trip ?p = Inr (Some (to_json ?p))" using round_trip_iff[OF i] by simp
  then show ?thesis using i n by (simp add: to_json_def payload_literal_def)
qed

lemma uri_ascii_base64:
  assumes "is_b64_char c \<or> c = 0x3D"
  shows "uri_ascii c = percent_base64 c"
proof -
  consider "c = 0x2B" | "c = 0x2F" | "c = 0x3D" | "is_upper c \<or> is_lower c \<or> is_digit c"
    using assms by (auto simp: is_b64_char_def)
  then show ?thesis
  proof cases
    case 4
    then have "is_unreserved c" by (auto simp: is_unreserved_def)
    moreover have "c \<noteq> 0x2B" "c \<noteq> 0x2F" "c \<noteq> 0x3D"
      using 4 by (auto simp: is_upper_def is_lower_def is_digit_def)
    ultimately show ?thesis by (simp add: uri_ascii_def percent_base64_def)
  qed (simp_all add: uri_ascii_def percent_base64_def is_unreserved_def is_upper_def
         is_lower_def is_digit_def percent_def hex_upper_def js_def)
qed

lemma base64_encode_chars:
  assumes "list_all (\<lambda>b. b < 256) bs"
  shows "\<forall>c\<in>set (base64_encode bs). is_b64_char c \<or> c = 0x3D"
proof -
  have sx: "\<forall>x\<in>set (sextets bs). x < 64" using sextets_bound[OF assms] by (simp add: list_all_iff)
  show ?thesis
    unfolding base64_encode_split using sx b64_char_props(2) padding_cases[of bs] by auto
qed

lemma percent_base64_safe:
  "0x2B \<notin> set (percent_base64 c)" "0x2F \<notin> set (percent_base64 c)"
  "0x3D \<notin> set (percent_base64 c)"
  by (auto simp: percent_base64_def js_def)

lemma encodePayload_pipeline:
  "encodePayload p = Inr token \<longleftrightarrow>
     latin1 (JSON_stringify p) \<and>
     token = concat (map percent_base64 (base64_encode (map unat (rev (JSON_stringify p)))))"
proof (cases "latin1 (JSON_stringify p)")
  case True
  then have "latin1 (rev (JSON_stringify p))" by (simp add: latin1_def)
  then have "\<forall>c\<in>set (base64_encode (map unat (rev (JSON_stringify p)))). uri_ascii c = percent_base64 c"
    using base64_encode_chars[OF latin1_bytes] uri_ascii_base64 by blast
  then have m: "map uri_ascii (base64_encode (map unat (rev (JSON_stringify p))))
      = map percent_base64 (base64_encode (map unat (rev (JSON_stringify p))))"
    by (intro map_cong[OF refl]) blast
  show ?thesis unfolding encodePayload_eq m using True by auto
next
  case False
  then show ?thesis by (simp add: encodePayload_eq)
qed

text \<open>
  C6 (as amended). \<open>encodePayload\<close> is the four steps in order. The text is the JSON
  text of the payload's properties in the order in which they were created, so that
  \<open>JSON.parse\<close> reads the same members back in the same order; for a payload written as
  the caller's literal the members are \<open>t\<close>, \<open>d\<close>, \<open>g\<close>, \<open>r\<close> in this order. A
  token is returned exactly when the text is Latin-1, and it is then the Base64 text of
  the reversed text with \<open>+\<close>, \<open>/\<close> and \<open>=\<close> percent-escaped, so none of the three
  occurs in a token.
\<close>

theorem encode_is_four_step_pipeline:
  "(is_payload p \<longrightarrow>
      JSON_parse (JSON_stringify p) = Inr (JObject (map (\<lambda>m. (fst m, JString (snd m))) p))) \<and>
   JSON_stringify (payload_literal title description giver receiver) =
     js ''{'' @ QuoteJSONString (js ''t'') @ js '':'' @ QuoteJSONString title @ js '','' @
     QuoteJSONString (js ''d'') @ js '':'' @ QuoteJSONString description @ js '','' @
     QuoteJSONString (js ''g'') @ js '':'' @ QuoteJSONString giver @ js '','' @
     QuoteJSONString (js ''r'') @ js '':'' @ QuoteJSONString receiver @ js ''}'' \<and>
   (encodePayload p = Inr token \<longleftrightarrow>
      latin1 (JSON_stringify p) \<and>
      token = concat (map percent_base64 (base64_encode (map unat (rev (JSON_stringify p)))))) \<and>
   (encodePayload p = Inr token \<longrightarrow>
      0x2B \<notin> set token \<and> 0x2F \<notin> set token \<and> 0x3D \<notin> set token)"
proof (intro conjI impI)
  show "JSON_parse (JSON_stringify p) = Inr (JObject (map (\<lambda>m. (fst m, JString (snd m))) p))"
    if "is_payload p"
    using JSON_parse_stringify[OF that] by (simp add: to_json_def)
  show "JSON_stringify (payload_literal title description giver receiver) =
     js ''{'' @ QuoteJSONString (js ''t'') @ js '':'' @ QuoteJSONString title @ js '','' @
     QuoteJSONString (js ''d'') @ js '':'' @ QuoteJSONString description @ js '','' @
     QuoteJSONString (js ''g'') @ js '':'' @ QuoteJSONString giver @ js '','' @
     QuoteJSONString (js ''r'') @ js '':'' @ QuoteJSONString receiver @ js ''}''"
    by (simp add: JSON_stringify_def payload_literal_def json_member_def)
  show "encodePayload p = Inr token \<longleftrightarrow>
      latin1 (JSON_stringify p) \<and>
      token = concat (map percent_base64 (base64_encode (map unat (rev (JSON_stringify p)))))"
    by (rule encodePayload_pipeline)
  assume "encodePayload p = Inr token"
  then have t: "token = concat (map percent_base64 (base64_encode (map unat (rev (JSON_stringify p)))))"
    unfolding encodePayload_pipeline by simp
  show "0x2B \<notin> set token" "0x2F \<notin> set token" "0x3D \<notin> set token"
    unfolding t using percent_base64_safe by auto
qed

theorem encode_is_four_step_pipeline_witness:
  "is_payload (payload_literal (js ''XMAS'') [] (js ''ALICE'') (js ''BOB'')) \<and>
   JSON_parse (JSON_stringify (payload_literal (js ''XMAS'') [] (js ''ALICE'') (js ''BOB'')))
     = Inr (JObject [(js ''t'', JString (js ''XMAS'')), (js ''d'', JString []),
                     (js ''g'', JString (js ''ALICE'')), (js ''r'', JString (js ''BOB''))]) \<and>
   encodePayload (payload_literal (js ''XMAS'') [] (js ''ALICE'') (js ''BOB''))
     = Inr (js ''fSJCT0IiOiJyIiwiRUNJTEEiOiJnIiwiIjoiZCIsIlNBTVgiOiJ0Ins%3D'') \<and>
   0x2B \<notin> set (js ''fSJCT0IiOiJyIiwiRUNJTEEiOiJnIiwiIjoiZCIsIlNBTVgiOiJ0Ins%3D'') \<and>
   0x2F \<notin> set (js ''fSJCT0IiOiJyIiwiRUNJTEEiOiJnIiwiIjoiZCIsIlNBTVgiOiJ0Ins%3D'') \<and>
   0x3D \<notin> set (js ''fSJCT0IiOiJyIiwiRUNJTEEiOiJnIiwiIjoiZCIsIlNBTVgiOiJ0Ins%3D'')"
proof -
  let ?p = "payload_literal (js ''XMAS'') [] (js ''ALICE'') (js ''BOB'')"
  let ?tok = "js ''fSJCT0IiOiJyIiwiRUNJTEEiOiJnIiwiIjoiZCIsIlNBTVgiOiJ0Ins%3D''"
  have i: "is_payload ?p" by (simp add: is_payload_def payload_literal_def payload_keys_def)
  have e: "encodePayload ?p = Inr ?tok" by code_simp
  have j: "map (\<lambda>m. (fst m, JString (snd m))) ?p
      = [(js ''t'', JString (js ''XMAS'')), (js ''d'', JString []),
         (js ''g'', JString (js ''ALICE'')), (js ''r'', JString (js ''BOB''))]"
    by (simp add: payload_literal_def)
  show ?thesis
    using encode_is_four_step_pipeline[of ?p "js ''XMAS''" "[]" "js ''ALICE''" "js ''BOB''" ?tok] i e
    unfolding j by blast
qed

text \<open>
  C6 as stated, the keys in the fixed order \<open>t\<close>, \<open>d\<close>, \<open>g\<close>, \<open>r\<close> for every
  record, fails on a record whose properties were created in another order: the same
  four fields created as \<open>r\<close>, \<open>g\<close>, \<open>d\<close>, \<open>t\<close> are written in that order.
\<close>

theorem members_in_creation_order:
  "is_payload [(js ''r'', js ''BOB''), (js ''g'', js ''ALICE''), (js ''d'', []), (js ''t'', js ''XMAS'')] \<and>
   JSON_stringify [(js ''r'', js ''BOB''), (js ''g'', js ''ALICE''), (js ''d'', []), (js ''t'', js ''XMAS'')]
     = js ''{'' @ [0x22] @ js ''r'' @ [0x22] @ js '':'' @ [0x22] @ js ''BOB'' @ [0x22] @ js '','' @
       [0x22] @ js ''g'' @ [0x22] @ js '':'' @ [0x22] @ js ''ALICE'' @ [0x22] @ js '','' @
       [0x22] @ js ''d'' @ [0x22] @ js '':'' @ [0x22] @ [0x22] @ js '','' @
       [0x22] @ js ''t'' @ [0x22] @ js '':'' @ [0x22] @ js ''XMAS'' @ [0x22] @ js ''}'' \<and>
   JSON_stringify [(js ''r'', js ''BOB''), (js ''g'', js ''ALICE''), (js ''d'', []), (js ''t'', js ''XMAS'')]
     \<noteq> JSON_stringify (payload_literal (js ''XMAS'') [] (js ''ALICE'') (js ''BOB''))"
proof -
  let ?q = "[(js ''r'', js ''BOB''), (js ''g'', js ''ALICE''), (js ''d'', []), (js ''t'', js ''XMAS'')]"
  have i: "is_payload ?q" by (auto simp: is_payload_def payload_keys_def)
  have s: "JSON_stringify ?q
     = js ''{'' @ [0x22] @ js ''r'' @ [0x22] @ js '':'' @ [0x22] @ js ''BOB'' @ [0x22] @ js '','' @
       [0x22] @ js ''g'' @ [0x22] @ js '':'' @ [0x22] @ js ''ALICE'' @ [0x22] @ js '','' @
       [0x22] @ js ''d'' @ [0x22] @ js '':'' @ [0x22] @ [0x22] @ js '','' @
       [0x22] @ js ''t'' @ [0x22] @ js '':'' @ [0x22] @ js ''XMAS'' @ [0x22] @ js ''}''"
    by code_simp
  have n: "JSON_stringify ?q \<noteq> JSON_stringify (payload_literal (js ''XMAS'') [] (js ''ALICE'') (js ''BOB''))"
    by code_simp
  show ?thesis using i s n by blast
qed

lemma typeof_string_field:
  "typeof_string v key = (if v = JNull then Inl TypeError else Inr (string_field v key))"
  by (cases v) (simp_all add: typeof_string_def)

lemma string_field_JNull: "\<not> string_field JNull key"
  by simp

lemma shape_check:
  "(case and_then (typeof_string v ''t'')
           (and_then (typeof_string v ''d'')
             (and_then (typeof_string v ''g'') (typeof_string v ''r''))) of
      Inl e \<Rightarrow> Inl e
    | Inr True \<Rightarrow> Inr (Some v)
    | Inr False \<Rightarrow> Inr None) =
   (if v = JNull then Inl TypeError
    else if string_field v ''t'' \<and> string_field v ''d'' \<and> string_field v ''g'' \<and>
            string_field v ''r''
         then Inr (Some v) else Inr None)"
  by (auto simp: typeof_string_field and_then_def split: bool.splits)

text \<open>
  C4. \<open>decodePayload\<close> returns for every input, and what it returns follows the stages:
  \<open>null\<close> when \<open>decodeURIComponent\<close> throws, when \<open>atob\<close> throws, when
  \<open>JSON.parse\<close> throws, and when the parsed value lacks a string under \<open>t\<close>, \<open>d\<close>,
  \<open>g\<close> or \<open>r\<close> (for \<open>null\<close> the property read throws and is caught); the parsed
  value when all four are strings.
\<close>

theorem decode_null_on_every_failure:
  "(decodeURIComponent encoded = Inl e \<longrightarrow> decodePayload encoded = None) \<and>
   (decodeURIComponent encoded = Inr u \<and> atob u = Inl e \<longrightarrow> decodePayload encoded = None) \<and>
   (decodeURIComponent encoded = Inr u \<and> atob u = Inr b \<and> JSON_parse (rev b) = Inl e
      \<longrightarrow> decodePayload encoded = None) \<and>
   (decodeURIComponent encoded = Inr u \<and> atob u = Inr b \<and> JSON_parse (rev b) = Inr v \<and>
    \<not> (string_field v ''t'' \<and> string_field v ''d'' \<and> string_field v ''g'' \<and>
       string_field v ''r'')
      \<longrightarrow> decodePayload encoded = None) \<and>
   (decodeURIComponent encoded = Inr u \<and> atob u = Inr b \<and> JSON_parse (rev b) = Inr v \<and>
    string_field v ''t'' \<and> string_field v ''d'' \<and> string_field v ''g'' \<and>
    string_field v ''r''
      \<longrightarrow> decodePayload encoded = Some v)"
proof (intro conjI impI)
  show "decodePayload encoded = None" if "decodeURIComponent encoded = Inl e"
    using that by (simp add: decodePayload_def decode_try_def)
  show "decodePayload encoded = None" if "decodeURIComponent encoded = Inr u \<and> atob u = Inl e"
    using that by (simp add: decodePayload_def decode_try_def)
  show "decodePayload encoded = None"
    if "decodeURIComponent encoded = Inr u \<and> atob u = Inr b \<and> JSON_parse (rev b) = Inl e"
    using that by (simp add: decodePayload_def decode_try_def)
  show "decodePayload encoded = None"
    if "decodeURIComponent encoded = Inr u \<and> atob u = Inr b \<and> JSON_parse (rev b) = Inr v \<and>
      \<not> (string_field v ''t'' \<and> string_field v ''d'' \<and> string_field v ''g'' \<and>
         string_field v ''r'')"
    using that by (auto simp: decodePayload_def decode_try_def shape_check)
  show "decodePayload encoded = Some v"
    if h: "decodeURIComponent encoded = Inr u \<and> atob u = Inr b \<and> JSON_parse (rev b) = Inr v \<and>
      string_field v ''t'' \<and> string_field v ''d'' \<and> string_field v ''g'' \<and>
      string_field v ''r''"
  proof -
    have "v \<noteq> JNull" using h by auto
    then show ?thesis using h by (simp add: decodePayload_def decode_try_def shape_check)
  qed
qed

theorem decode_null_on_every_failure_witness:
  "decodeURIComponent (js ''%'') = Inl URIError \<and> decodePayload (js ''%'') = None \<and>
   decodeURIComponent (js ''not-a-token!!'') = Inr (js ''not-a-token!!'') \<and>
   atob (js ''not-a-token!!'') = Inl InvalidCharacterError \<and>
   decodePayload (js ''not-a-token!!'') = None \<and>
   decodeURIComponent [] = Inr [] \<and> atob [] = Inr [] \<and>
   JSON_parse (rev []) = Inl SyntaxError \<and> decodePayload [] = None \<and>
   decodeURIComponent (js ''fSJYIjoidCJ7'') = Inr (js ''fSJYIjoidCJ7'') \<and>
   atob (js ''fSJYIjoidCJ7'') = Inr (rev (js ''{'' @ [0x22] @ js ''t'' @ [0x22] @ js '':'' @ [0x22] @ js ''X'' @ [0x22] @ js ''}'')) \<and>
   JSON_parse (rev (rev (js ''{'' @ [0x22] @ js ''t'' @ [0x22] @ js '':'' @ [0x22] @ js ''X'' @ [0x22] @ js ''}'')))
     = Inr (JObject [(js ''t'', JString (js ''X''))]) \<and>
   \<not> (string_field (JObject [(js ''t'', JString (js ''X''))]) ''t'' \<and>
      string_field (JObject [(js ''t'', JString (js ''X''))]) ''d'' \<and>
      string_field (JObject [(js ''t'', JString (js ''X''))]) ''g'' \<and>
      string_field (JObject [(js ''t'', JString (js ''X''))]) ''r'') \<and>
   decodePayload (js ''fSJYIjoidCJ7'') = None \<and>
   decodePayload (js ''fSJCIjoiciIsIkEiOiJnIiwiIjoiZCIsIlgiOiJ0Ins%3D'')
     = Some (JObject [(js ''t'', JString (js ''X'')), (js ''d'', JString []),
                      (js ''g'', JString (js ''A'')), (js ''r'', JString (js ''B''))])"
proof -
  let ?text = "js ''{'' @ [0x22] @ js ''t'' @ [0x22] @ js '':'' @ [0x22] @ js ''X'' @ [0x22] @ js ''}''"
  let ?v = "JObject [(js ''t'', JString (js ''X''))]"
  let ?w = "JObject [(js ''t'', JString (js ''X'')), (js ''d'', JString []),
                      (js ''g'', JString (js ''A'')), (js ''r'', JString (js ''B''))]"
  let ?tok = "js ''fSJCIjoiciIsIkEiOiJnIiwiIjoiZCIsIlgiOiJ0Ins%3D''"
  let ?b64 = "js ''fSJCIjoiciIsIkEiOiJnIiwiIjoiZCIsIlgiOiJ0Ins=''"
  have a1: "decodeURIComponent (js ''%'') = Inl URIError" by code_simp
  have b1: "decodeURIComponent (js ''not-a-token!!'') = Inr (js ''not-a-token!!'')" by code_simp
  have b2: "atob (js ''not-a-token!!'') = Inl InvalidCharacterError" by code_simp
  have c1: "decodeURIComponent [] = Inr []" by code_simp
  have c2: "atob [] = Inr []" by code_simp
  have c3: "JSON_parse (rev []) = Inl SyntaxError" by code_simp
  have d1: "decodeURIComponent (js ''fSJYIjoidCJ7'') = Inr (js ''fSJYIjoidCJ7'')" by code_simp
  have d2: "atob (js ''fSJYIjoidCJ7'') = Inr (rev ?text)" by code_simp
  have d3: "JSON_parse (rev (rev ?text)) = Inr ?v" by code_simp
  have d4: "\<not> (string_field ?v ''t'' \<and> string_field ?v ''d'' \<and> string_field ?v ''g'' \<and>
      string_field ?v ''r'')" by code_simp
  have e1: "decodeURIComponent ?tok = Inr ?b64" by code_simp
  have e2: "atob ?b64 = Inr (rev (JSON_stringify (payload_literal (js ''X'') [] (js ''A'') (js ''B''))))"
    by code_simp
  have e3: "JSON_parse (rev (rev (JSON_stringify (payload_literal (js ''X'') [] (js ''A'') (js ''B''))))) = Inr ?w"
    by code_simp
  have e4: "string_field ?w ''t'' \<and> string_field ?w ''d'' \<and> string_field ?w ''g'' \<and> string_field ?w ''r''"
    by code_simp
  note t = decode_null_on_every_failure[THEN conjunct1] decode_null_on_every_failure[THEN conjunct2, THEN conjunct1]
    decode_null_on_every_failure[THEN conjunct2, THEN conjunct2, THEN conjunct1]
    decode_null_on_every_failure[THEN conjunct2, THEN conjunct2, THEN conjunct2, THEN conjunct1]
    decode_null_on_every_failure[THEN conjunct2, THEN conjunct2, THEN conjunct2, THEN conjunct2]
  have r1: "decodePayload (js ''%'') = None" using t(1) a1 by blast
  have r2: "decodePayload (js ''not-a-token!!'') = None" using t(2) b1 b2 by blast
  have r3: "decodePayload [] = None" using t(3) c1 c2 c3 by blast
  have r4: "decodePayload (js ''fSJYIjoidCJ7'') = None" using t(4) d1 d2 d3 d4 by blast
  have r5: "decodePayload ?tok = Some ?w" using t(5) e1 e2 e3 e4 by blast
  show ?thesis using a1 b1 b2 c1 c2 c3 d1 d2 d3 d4 r1 r2 r3 r4 r5 by blast
qed

section \<open>The engine on a store: proofs\<close>

lemma frame_refl: "frame n h h"
  by (simp add: frame_def)

lemma frame_trans: "frame n h1 h2 \<Longrightarrow> frame n h2 h3 \<Longrightarrow> frame n h1 h3"
  by (auto simp: frame_def)

lemma frame_alloc:
  assumes "new_obj ob h = (a, h')" "n \<le> next_addr h"
  shows "frame n h h'" "n \<le> a" "n \<le> next_addr h'"
  using assms by (auto simp: new_obj_def frame_def)

lemma frame_update: "n \<le> a \<Longrightarrow> frame n h (update_at a ob h)"
  by (auto simp: update_at_def frame_def)

lemma next_addr_update [simp]: "next_addr (update_at a ob h) = next_addr h"
  by (simp add: update_at_def)

lemma frame_assign: "n \<le> al \<Longrightarrow> frame n h (assign_at al g r h)"
  by (simp add: assign_at_def frame_update)

lemma frame_delete: "n \<le> al \<Longrightarrow> frame n h (delete_at al g h)"
  by (simp add: delete_at_def frame_update)

lemma frame_excluded_or_empty:
  assumes "excluded_or_empty e giver h = (x, h1)" "n \<le> next_addr h"
  shows "frame n h h1"
proof (cases "excl_at h e giver = None \<and> giver \<notin> set object_prototype_names")
  case True
  obtain a h' where a: "new_obj (Arr []) h = (a, h')" by (cases "new_obj (Arr []) h")
  then have "h1 = h'" using assms(1) True by (simp add: excluded_or_empty_def)
  then show ?thesis using frame_alloc(1)[OF a assms(2)] by simp
next
  case False
  then have "h1 = h" using assms(1)
    by (auto simp: excluded_or_empty_def split: option.splits if_splits)
  then show ?thesis by (simp add: frame_refl)
qed

lemma frame_next: "frame n h h' \<Longrightarrow> n \<le> next_addr h \<Longrightarrow> n \<le> next_addr h'"
  by (auto simp: frame_def)

lemma frame_array_at: "frame n h h' \<Longrightarrow> p < n \<Longrightarrow> array_at h' p = array_at h p"
  by (simp add: frame_def array_at_def)

lemma trial_for_st_step:
  assumes "i < length (array_at h p)" "excluded_or_empty e (array_at h p ! i) h = (x, h1)"
  shows "trial_for_st p s e al i h =
           (if array_at h p ! i = array_at h s ! i then (Inr False, h)
            else case includes_at h1 x (array_at h s ! i) of
                   Inl err \<Rightarrow> (Inl err, h1)
                 | Inr True \<Rightarrow> (Inr False, h1)
                 | Inr False \<Rightarrow>
                     trial_for_st p s e al (i + 1)
                       (assign_at al (array_at h p ! i) (array_at h s ! i) h1))"
  using assms by (subst trial_for_st.simps) (simp add: Let_def)

lemma frame_trial_for_st:
  "n \<le> al \<Longrightarrow> n \<le> next_addr h \<Longrightarrow> frame n h (snd (trial_for_st p s e al i h))"
proof (induction p s e al i h rule: trial_for_st.induct)
  case (1 p s e al i h)
  show ?case
  proof (cases "i < length (array_at h p)")
    case False
    then show ?thesis by (simp add: trial_for_st.simps frame_refl)
  next
    case lt: True
    obtain x h1 where x: "excluded_or_empty e (array_at h p ! i) h = (x, h1)"
      by (cases "excluded_or_empty e (array_at h p ! i) h")
    have f1: "frame n h h1" using x "1.prems"(2) by (rule frame_excluded_or_empty)
    note step = trial_for_st_step[OF lt x, of s al]
    show ?thesis
    proof (cases "array_at h p ! i \<noteq> array_at h s ! i
                  \<and> includes_at h1 x (array_at h s ! i) = Inr False")
      case False
      then show ?thesis
        unfolding step using f1 by (auto simp: frame_refl split: sum.splits bool.splits)
    next
      case True
      let ?h2 = "assign_at al (array_at h p ! i) (array_at h s ! i) h1"
      have f2: "frame n h ?h2"
        using f1 frame_assign[OF "1.prems"(1)] by (rule frame_trans)
      have n2: "n \<le> next_addr ?h2" using f2 "1.prems"(2) by (rule frame_next)
      have "frame n ?h2 (snd (trial_for_st p s e al (i + 1) ?h2))"
        using "1.IH"[OF lt refl refl _ x[symmetric] refl _ refl "1.prems"(1) n2] True by simp
      then have "frame n h (snd (trial_for_st p s e al (i + 1) ?h2))"
        using f2 frame_trans by blast
      then show ?thesis unfolding step using True by simp
    qed
  qed
qed

lemma trial_while_st_step:
  assumes "attempts < maxAttempts" "spread_copy p h = (copy, h1)"
    "new_obj (Rec Map.empty) (sort_in_place sh attempts copy h1) = (al, h3)"
    "trial_for_st p copy e al 0 h3 = (r, h4)"
  shows "trial_while_st sh p e attempts h =
           (case r of
              Inl err \<Rightarrow> (Inl err, attempts, h4)
            | Inr True \<Rightarrow> (Inr (Some al), attempts, h4)
            | Inr False \<Rightarrow> trial_while_st sh p e (attempts + 1) h4)"
  using assms by (subst trial_while_st.simps) (simp add: Let_def)

lemma frame_trial_while_st:
  "n \<le> next_addr h \<Longrightarrow> frame n h (snd (snd (trial_while_st sh p e attempts h)))"
proof (induction sh p e attempts h rule: trial_while_st.induct)
  case (1 sh p e attempts h)
  show ?case
  proof (cases "attempts < maxAttempts")
    case False
    then show ?thesis by (simp add: trial_while_st.simps frame_refl)
  next
    case lt: True
    obtain copy h1 where c: "spread_copy p h = (copy, h1)" by (cases "spread_copy p h")
    define h2 where "h2 = sort_in_place sh attempts copy h1"
    obtain al h3 where a: "new_obj (Rec Map.empty) h2 = (al, h3)"
      by (cases "new_obj (Rec Map.empty) h2")
    obtain r h4 where t: "trial_for_st p copy e al 0 h3 = (r, h4)"
      by (cases "trial_for_st p copy e al 0 h3")
    note step = trial_while_st_step[OF lt c a[unfolded h2_def] t]
    have f1: "frame n h h1" "n \<le> copy" "n \<le> next_addr h1"
      using c "1.prems" unfolding spread_copy_def by (rule frame_alloc)+
    have f2: "frame n h1 h2" "n \<le> next_addr h2"
      using f1 by (simp_all add: h2_def sort_in_place_def frame_update)
    have f3: "frame n h2 h3" "n \<le> al" "n \<le> next_addr h3"
      using a f2(2) by (rule frame_alloc)+
    have f4: "frame n h3 h4"
      using frame_trial_for_st[OF f3(2,3), of p copy e 0] t by simp
    have f: "frame n h h4"
      using f1(1) f2(1) f3(1) f4 frame_trans by blast
    show ?thesis
    proof (cases "r = Inr False")
      case False
      then show ?thesis unfolding step using f by (auto split: sum.splits bool.splits)
    next
      case True
      have "frame n h4 (snd (snd (trial_while_st sh p e (attempts + 1) h4)))"
        using "1.IH"[OF lt refl c[symmetric] h2_def refl refl a[symmetric] t[symmetric]]
          True frame_next[OF f "1.prems"]
        by blast
      then have "frame n h (snd (snd (trial_while_st sh p e (attempts + 1) h4)))"
        using f frame_trans by blast
      then show ?thesis unfolding step using True by simp
    qed
  qed
qed

lemma returns_framed_trans:
  "frame n h h1 \<Longrightarrow> returns_framed n h1 res \<Longrightarrow> returns_framed n h res"
  unfolding returns_framed_def using frame_trans by blast

lemma backtrack_st_returns:
  shows "n \<le> al \<Longrightarrow> n \<le> us \<Longrightarrow> n \<le> next_addr h \<Longrightarrow> p < n \<Longrightarrow>
         length (array_at h p) - index < depth \<Longrightarrow>
         returns_framed n h (backtrack_st depth sh p e al us index k h)"
    and "n \<le> al \<Longrightarrow> n \<le> us \<Longrightarrow> n \<le> next_addr h \<Longrightarrow> p < n \<Longrightarrow>
         length (array_at h p) - (index + 1) < depth \<Longrightarrow>
         returns_framed n h (candidates_for_st depth sh p e al us index giver cs k h)"
proof (induction depth sh p e al us index k h and depth sh p e al us index giver cs k h
        rule: backtrack_st_candidates_for_st.induct)
  case (1 sh p e al us index k h)
  then show ?case by simp
next
  case (2 depth sh p e al us index k h)
  note pr = "2.prems"
  show ?case
  proof (cases "length (array_at h p) \<le> index")
    case True
    then show ?thesis by (auto simp: returns_framed_def frame_refl)
  next
    case False
    define giver where "giver = array_at h p ! index"
    obtain y h1 where x: "excluded_or_empty e giver h = (y, h1)"
      by (cases "excluded_or_empty e giver h")
    have f1: "frame n h h1" using x pr(3) by (rule frame_excluded_or_empty)
    show ?thesis
    proof (cases y)
      case Builtin
      then have "backtrack_st (Suc depth) sh p e al us index k h = Some (Inl TypeError, k, h1)"
        using False x by (simp add: Let_def giver_def[symmetric])
      then show ?thesis using f1 by (simp add: returns_framed_def)
    next
      case (Ref x')
      note x = x[unfolded Ref]
      obtain tmp h2 where tmp: "new_obj (Arr (giver # array_at h1 x')) h1 = (tmp, h2)"
        by (cases "new_obj (Arr (giver # array_at h1 x')) h1")
      obtain excluded h3 where ex: "new_obj (StrSet (set (array_at h2 tmp))) h2 = (excluded, h3)"
        by (cases "new_obj (StrSet (set (array_at h2 tmp))) h2")
      obtain filtered h4 where fi:
        "new_obj (Arr (filter (\<lambda>c. c \<notin> set_at h3 excluded \<and> c \<notin> set_at h3 us) (array_at h3 p))) h3
           = (filtered, h4)"
        by (cases "new_obj (Arr (filter (\<lambda>c. c \<notin> set_at h3 excluded \<and> c \<notin> set_at h3 us)
                     (array_at h3 p))) h3")
      define h5 where "h5 = sort_in_place sh k filtered h4"
      have n1: "n \<le> next_addr h1" using f1 pr(3) by (rule frame_next)
      have f2: "frame n h1 h2" "n \<le> next_addr h2" using tmp n1 by (rule frame_alloc)+
      have f3: "frame n h2 h3" "n \<le> next_addr h3" using ex f2(2) by (rule frame_alloc)+
      have f4: "frame n h3 h4" "n \<le> filtered" "n \<le> next_addr h4"
        using fi f3(2) by (rule frame_alloc)+
      have f5: "frame n h4 h5" "n \<le> next_addr h5"
        using f4 by (simp_all add: h5_def sort_in_place_def frame_update)
      have f: "frame n h h5"
        using f1 f2(1) f3(1) f4(1) f5(1) frame_trans by blast
      have len: "array_at h5 p = array_at h p" using f pr(4) by (rule frame_array_at)
      have d: "length (array_at h5 p) - (index + 1) < depth"
        using pr(5) False unfolding len by simp
      have "returns_framed n h5
              (candidates_for_st depth sh p e al us index giver (array_at h5 filtered) (k + 1) h5)"
        using "2.IH"[OF False giver_def x[symmetric] refl refl tmp[symmetric] refl ex[symmetric] refl
                fi[symmetric] h5_def refl pr(1,2) f5(2) pr(4) d] .
      then have "returns_framed n h
              (candidates_for_st depth sh p e al us index giver (array_at h5 filtered) (k + 1) h5)"
        using f returns_framed_trans by blast
      then show ?thesis
        using False x tmp ex fi by (simp add: Let_def giver_def[symmetric] h5_def)
    qed
  qed
next
  case (3 depth sh p e al us index giver k h)
  show ?case by (auto simp: returns_framed_def frame_refl)
next
  case (4 depth sh p e al us index giver receiver rest k h)
  note pr = "4.prems"
  define h1 where "h1 = assign_at al giver receiver h"
  define h2 where "h2 = update_at us (StrSet (insert receiver (set_at h1 us))) h1"
  have f2: "frame n h h2"
    using frame_assign[OF pr(1)] frame_update[OF pr(2)] unfolding h1_def h2_def
    by (rule frame_trans)
  have n2: "n \<le> next_addr h2" using f2 pr(3) by (rule frame_next)
  have len2: "array_at h2 p = array_at h p" using f2 pr(4) by (rule frame_array_at)
  have "returns_framed n h2 (backtrack_st depth sh p e al us (index + 1) k h2)"
    using "4.IH"(1)[OF h1_def h2_def pr(1,2) n2 pr(4)] pr(5) unfolding len2 by simp
  then obtain r k' h3 where r: "backtrack_st depth sh p e al us (index + 1) k h2 = Some (r, k', h3)"
    and f3: "frame n h2 h3"
    unfolding returns_framed_def by blast
  show ?case
  proof (cases "r = Inr False")
    case False
    have "returns_framed n h (Some (r, k', h3))"
      using f2 f3 frame_trans unfolding returns_framed_def by blast
    moreover have "candidates_for_st depth sh p e al us index giver (receiver # rest) k h
        = Some (r, k', h3)"
      using r False
      by (auto simp: Let_def h1_def[symmetric] h2_def[symmetric] split: sum.splits bool.splits)
    ultimately show ?thesis by simp
  next
    case True
    define h4 where "h4 = update_at us (StrSet (set_at h3 us - {receiver})) h3"
    define h5 where "h5 = delete_at al giver h4"
    have f5: "frame n h3 h5"
      using frame_update[OF pr(2)] frame_delete[OF pr(1)] unfolding h4_def h5_def
      by (rule frame_trans)
    have f: "frame n h h5" using f2 f3 f5 frame_trans by blast
    have n5: "n \<le> next_addr h5" using f pr(3) by (rule frame_next)
    have len5: "array_at h5 p = array_at h p" using f pr(4) by (rule frame_array_at)
    have "returns_framed n h5 (candidates_for_st depth sh p e al us index giver rest k' h5)"
      using "4.IH"(2)[OF h1_def h2_def r[unfolded True] refl refl _ refl h4_def h5_def pr(1,2) n5 pr(4)]
        pr(5) unfolding len5 by simp
    then have "returns_framed n h (candidates_for_st depth sh p e al us index giver rest k' h5)"
      using f returns_framed_trans by blast
    then show ?thesis
      using r True
      by (simp add: Let_def h1_def[symmetric] h2_def[symmetric] h4_def[symmetric]
            h5_def[symmetric])
  qed
qed

lemma allocateSystematic_st_returns:
  assumes "n \<le> next_addr h" "p < n"
  shows "\<exists>res h'. allocateSystematic_st sh k p e h = Some (res, h') \<and> frame n h h'"
proof -
  obtain al h1 where a: "new_obj (Rec Map.empty) h = (al, h1)" by (cases "new_obj (Rec Map.empty) h")
  obtain us h2 where u: "new_obj (StrSet {}) h1 = (us, h2)" by (cases "new_obj (StrSet {}) h1")
  have f1: "frame n h h1" "n \<le> al" "n \<le> next_addr h1" using a assms(1) by (rule frame_alloc)+
  have f2: "frame n h1 h2" "n \<le> us" "n \<le> next_addr h2" using u f1(3) by (rule frame_alloc)+
  have "returns_framed n h2 (backtrack_st (length (array_at h2 p) + 1) sh p e al us 0 k h2)"
    by (rule backtrack_st_returns(1)[OF f1(2) f2(2,3) assms(2)]) simp
  then obtain r k' h3 where r: "backtrack_st (length (array_at h2 p) + 1) sh p e al us 0 k h2
      = Some (r, k', h3)" and f3: "frame n h2 h3"
    unfolding returns_framed_def by blast
  have f: "frame n h h3" using f1(1) f2(1) f3 frame_trans by blast
  show ?thesis
    using a u r f by (auto simp: allocateSystematic_st_def split: sum.splits bool.splits)
qed

subsection \<open>The store model and the functions on values\<close>

lemma frame_mono: "frame m h h' \<Longrightarrow> n \<le> m \<Longrightarrow> frame n h h'"
  by (auto simp: frame_def)

lemma frame_views:
  assumes "frame n h h'" "caller_owns n h p e"
  shows "array_at h' p = array_at h p" "ex_view h' e = ex_view h e" "caller_owns n h' p e"
proof -
  have o: "objs h' a = objs h a" if "a < n" for a using assms(1) that by (simp add: frame_def)
  have p: "p < n" and e: "e < n" and x: "\<And>g a. excl_at h e g = Some a \<Longrightarrow> a < n"
    using assms(2) by (auto simp: caller_owns_def)
  show "array_at h' p = array_at h p" using o[OF p] by (simp add: array_at_def)
  have ee: "excl_at h' e = excl_at h e" using o[OF e] by (simp add: excl_at_def)
  show "ex_view h' e = ex_view h e"
  proof
    fix g
    show "ex_view h' e g = ex_view h e g"
    proof (cases "excl_at h e g")
      case None
      then show ?thesis by (simp add: ex_view_def ee)
    next
      case (Some a)
      then have "array_at h' a = array_at h a" using o[OF x[OF Some]] by (simp add: array_at_def)
      then show ?thesis using Some by (simp add: ex_view_def ee)
    qed
  qed
  show "caller_owns n h' p e"
    using assms ee by (auto simp: caller_owns_def frame_def)
qed

lemma frame_below:
  assumes "frame (next_addr h) h h'" "a < next_addr h"
  shows "array_at h' a = array_at h a" "rec_at h' a = rec_at h a" "set_at h' a = set_at h a"
    "a < next_addr h'"
  using assms by (auto simp: frame_def array_at_def rec_at_def set_at_def)

lemma update_at_other:
  assumes "a \<noteq> b"
  shows "array_at (update_at b ob h) a = array_at h a" "rec_at (update_at b ob h) a = rec_at h a"
    "set_at (update_at b ob h) a = set_at h a"
  using assms by (simp_all add: update_at_def array_at_def rec_at_def set_at_def)

lemma update_at_same:
  "rec_at (update_at a (Rec m) h) a = m" "set_at (update_at a (StrSet s) h) a = s"
  "array_at (update_at a (Arr xs) h) a = xs"
  by (simp_all add: update_at_def array_at_def rec_at_def set_at_def)

lemma new_obj_at:
  assumes "new_obj ob h = (a, h')"
  shows "a = next_addr h" "next_addr h' = next_addr h + 1" "objs h' a = Some ob"
    "frame (next_addr h) h h'"
  using assms by (auto simp: new_obj_def frame_def)

lemma new_obj_read:
  assumes "new_obj ob h = (a, h')"
  shows "ob = Arr xs \<Longrightarrow> array_at h' a = xs" "ob = Rec m \<Longrightarrow> rec_at h' a = m"
    "ob = StrSet s \<Longrightarrow> set_at h' a = s"
  using new_obj_at(3)[OF assms] by (simp_all add: array_at_def rec_at_def set_at_def)

lemma excluded_or_empty_view:
  assumes "excluded_or_empty e giver h = (x, h1)" "caller_owns n h p e"
  shows "excluded_of (ex_view h e) giver
           = (case x of Ref a \<Rightarrow> Names (array_at h1 a) | Builtin \<Rightarrow> Inherited)"
    and "frame (next_addr h) h h1"
proof -
  show "frame (next_addr h) h h1"
    using assms(1) by (rule frame_excluded_or_empty) simp
  show "excluded_of (ex_view h e) giver
           = (case x of Ref a \<Rightarrow> Names (array_at h1 a) | Builtin \<Rightarrow> Inherited)"
  proof (cases "excl_at h e giver")
    case (Some a)
    then show ?thesis
      using assms(1) by (auto simp: excluded_or_empty_def excluded_of_def ex_view_def)
  next
    case None
    show ?thesis
    proof (cases "giver \<in> set object_prototype_names")
      case True
      then show ?thesis
        using assms(1) None by (auto simp: excluded_or_empty_def excluded_of_def ex_view_def)
    next
      case False
      obtain a h' where a: "new_obj (Arr []) h = (a, h')" by (cases "new_obj (Arr []) h")
      then have "x = Ref a" "h1 = h'"
        using assms(1) None False by (simp_all add: excluded_or_empty_def)
      then show ?thesis
        using new_obj_read(1)[OF a refl] None False by (simp add: excluded_of_def ex_view_def)
    qed
  qed
qed

lemma assign_at_read:
  "rec_at (assign_at al g r h) al = set_property (rec_at h al) g r"
  "a \<noteq> al \<Longrightarrow> array_at (assign_at al g r h) a = array_at h a"
  "a \<noteq> al \<Longrightarrow> set_at (assign_at al g r h) a = set_at h a"
  "next_addr (assign_at al g r h) = next_addr h"
  by (simp_all add: assign_at_def update_at_same update_at_other)

lemma delete_at_read:
  "rec_at (delete_at al g h) al = delete_property (rec_at h al) g"
  "a \<noteq> al \<Longrightarrow> array_at (delete_at al g h) a = array_at h a"
  "a \<noteq> al \<Longrightarrow> set_at (delete_at al g h) a = set_at h a"
  "next_addr (delete_at al g h) = next_addr h"
  by (simp_all add: delete_at_def update_at_same update_at_other)

lemma trial_for_st_refines:
  assumes "caller_owns n h p e" "n \<le> s" "n \<le> al" "s \<noteq> al"
    "s < next_addr h" "al < next_addr h"
  shows "trial_for_st p s e al i h = (r, h') \<Longrightarrow>
         trial_for (array_at h p) (array_at h s) (ex_view h e) i (rec_at h al)
           = trial_view h' al r"
  using assms
proof (induction p s e al i h arbitrary: r h' rule: trial_for_st.induct)
  case (1 p s e al i h)
  note run = "1.prems"(1) and own = "1.prems"(2) and fresh = "1.prems"(3-7)
  let ?ps = "array_at h p" and ?rs = "array_at h s" and ?ex = "ex_view h e"
  show ?case
  proof (cases "i < length ?ps")
    case False
    then have "trial_for_st p s e al i h = (Inr True, h)" by (simp add: trial_for_st.simps)
    then have "r = Inr True" "h' = h" using run by simp_all
    then show ?thesis using False by (simp add: trial_for.simps)
  next
    case lt: True
    let ?g = "?ps ! i" and ?r = "?rs ! i"
    obtain x h1 where x: "excluded_or_empty e ?g h = (x, h1)"
      by (cases "excluded_or_empty e ?g h")
    note step = trial_for_st_step[OF lt x, of s al]
    have xv: "excluded_of ?ex ?g = (case x of Ref a \<Rightarrow> Names (array_at h1 a) | Builtin \<Rightarrow> Inherited)"
      and f1: "frame (next_addr h) h h1"
      using excluded_or_empty_view[OF x own] by simp_all
    have inc: "array_includes (excluded_of ?ex ?g) ?r = includes_at h1 x ?r"
      unfolding xv by (cases x) simp_all
    have pstep: "trial_for ?ps ?rs ?ex i (rec_at h al) =
           (if ?g = ?r then Inr None
            else case includes_at h1 x ?r of
                   Inl e \<Rightarrow> Inl e
                 | Inr True \<Rightarrow> Inr None
                 | Inr False \<Rightarrow> trial_for ?ps ?rs ?ex (i + 1) (set_property (rec_at h al) ?g ?r))"
      using lt by (subst trial_for.simps) (simp add: Let_def inc)
    show ?thesis
    proof (cases "?g \<noteq> ?r \<and> includes_at h1 x ?r = Inr False")
      case False
      show ?thesis
      proof (cases "?g = ?r")
        case True
        then have "r = Inr False" using run unfolding step by simp
        then show ?thesis unfolding pstep using True by simp
      next
        case ne: False
        show ?thesis
        proof (cases "includes_at h1 x ?r")
          case (Inl err)
          then have "r = Inl err" using run ne unfolding step by simp
          then show ?thesis unfolding pstep using ne Inl by simp
        next
          case (Inr b)
          then have b: "b" using False ne by simp
          then have "r = Inr False" using run ne Inr unfolding step by simp
          then show ?thesis unfolding pstep using ne Inr b by simp
        qed
      qed
    next
      case True
      let ?h2 = "assign_at al ?g ?r h1"
      have st: "trial_for_st p s e al (i + 1) ?h2 = (r, h')"
        using run True unfolding step by simp
      have nle: "n \<le> next_addr h" using own by (simp add: caller_owns_def)
      have fn1: "frame n h h1" using f1 nle by (rule frame_mono)
      have fn2: "frame n h ?h2"
        using fn1 frame_assign[OF fresh(2)] by (rule frame_trans)
      have own2: "caller_owns n ?h2 p e" and p2: "array_at ?h2 p = ?ps"
        and e2: "ex_view ?h2 e = ?ex"
        using frame_views[OF fn2 own] by simp_all
      have s2: "array_at ?h2 s = ?rs"
        using assign_at_read(2)[OF fresh(3)] frame_below(1)[OF f1 fresh(4)] by simp
      have r2: "rec_at ?h2 al = set_property (rec_at h al) ?g ?r"
        using frame_below(2)[OF f1 fresh(5)] by (simp add: assign_at_read)
      have b2: "s < next_addr ?h2" "al < next_addr ?h2"
        using frame_below(4)[OF f1 fresh(4)] frame_below(4)[OF f1 fresh(5)]
        by (simp_all add: assign_at_read)
      have "trial_for (array_at ?h2 p) (array_at ?h2 s) (ex_view ?h2 e) (i + 1) (rec_at ?h2 al)
          = trial_view h' al r"
        using "1.IH"[OF lt refl refl _ x[symmetric] refl _ refl st own2 fresh(1,2,3) b2] True
        by simp
      then have "trial_for ?ps ?rs ?ex (i + 1) (set_property (rec_at h al) ?g ?r)
          = trial_view h' al r"
        unfolding p2 s2 e2 r2 .
      then show ?thesis unfolding pstep using True by simp
    qed
  qed
qed

lemma trial_while_st_refines:
  "caller_owns n h p e \<Longrightarrow> trial_while_st sh p e attempts h = (res, a', h') \<Longrightarrow>
   trial_while sh (array_at h p) (ex_view h e) attempts = (result_view h' res, a')"
proof (induction sh p e attempts h arbitrary: res a' h' rule: trial_while_st.induct)
  case (1 sh p e attempts h)
  note own = "1.prems"(1) and run = "1.prems"(2)
  have nle: "n \<le> next_addr h" using own by (simp add: caller_owns_def)
  show ?case
  proof (cases "attempts < maxAttempts")
    case False
    then have "trial_while_st sh p e attempts h = (Inr None, attempts, h)"
      by (simp add: trial_while_st.simps)
    then have "res = Inr None" "a' = attempts" using run by simp_all
    then show ?thesis using False by (simp add: trial_while.simps)
  next
    case lt: True
    obtain copy h1 where c: "spread_copy p h = (copy, h1)" by (cases "spread_copy p h")
    define h2 where "h2 = sort_in_place sh attempts copy h1"
    obtain al h3 where a: "new_obj (Rec Map.empty) h2 = (al, h3)"
      by (cases "new_obj (Rec Map.empty) h2")
    obtain r h4 where t: "trial_for_st p copy e al 0 h3 = (r, h4)"
      by (cases "trial_for_st p copy e al 0 h3")
    note step = trial_while_st_step[OF lt c a[unfolded h2_def] t]
    have c': "new_obj (Arr (array_at h p)) h = (copy, h1)" using c by (simp add: spread_copy_def)
    have copy: "copy = next_addr h" and n1: "next_addr h1 = next_addr h + 1"
      and f1: "frame (next_addr h) h h1"
      using new_obj_at[OF c'] by simp_all
    have r1: "array_at h1 copy = array_at h p" using new_obj_read(1)[OF c' refl] .
    have r2: "array_at h2 copy = sh attempts (array_at h p)"
      by (simp add: h2_def sort_in_place_def update_at_same r1)
    have n2: "next_addr h2 = next_addr h + 1" by (simp add: h2_def sort_in_place_def n1)
    have f2: "frame (next_addr h) h1 h2"
      unfolding h2_def sort_in_place_def using frame_update[of "next_addr h" copy] copy by simp
    have al: "al = next_addr h + 1" and n3: "next_addr h3 = next_addr h + 2"
      and f3: "frame (next_addr h2) h2 h3"
      using new_obj_at[OF a] n2 by simp_all
    have r3: "rec_at h3 al = Map.empty" using new_obj_read(2)[OF a refl] .
    have s3: "array_at h3 copy = sh attempts (array_at h p)"
      using frame_below(1)[OF f3, of copy] r2 copy n2 by simp
    have f3': "frame n h2 h3" using f3 nle n2 by (intro frame_mono[OF f3]) simp
    have fn: "frame n h h3"
      using frame_mono[OF f1 nle] frame_mono[OF f2 nle] f3' frame_trans by blast
    have own3: "caller_owns n h3 p e" and p3: "array_at h3 p = array_at h p"
      and e3: "ex_view h3 e = ex_view h e"
      using frame_views[OF fn own] by simp_all
    have tf: "trial_for (array_at h p) (sh attempts (array_at h p)) (ex_view h e) 0 Map.empty
        = trial_view h4 al r"
      using trial_for_st_refines[OF own3 _ _ _ _ _ t] copy al nle n3
      unfolding p3 e3 s3 r3 by simp
    have pstep: "trial_while sh (array_at h p) (ex_view h e) attempts =
        (case trial_view h4 al r of
           Inl e \<Rightarrow> (Inl e, attempts)
         | Inr (Some alloc) \<Rightarrow> (Inr (Some alloc), attempts)
         | Inr None \<Rightarrow> trial_while sh (array_at h p) (ex_view h e) (attempts + 1))"
      using lt by (subst trial_while.simps) (simp add: tf)
    show ?thesis
    proof (cases r)
      case (Inl err)
      then have "res = Inl err" "a' = attempts" "h' = h4" using run unfolding step by simp_all
      then show ?thesis unfolding pstep using Inl by simp
    next
      case (Inr b)
      show ?thesis
      proof (cases b)
        case True
        then have "res = Inr (Some al)" "a' = attempts" "h' = h4"
          using run Inr unfolding step by simp_all
        then show ?thesis unfolding pstep using Inr True by simp
      next
        case False
        then have st: "trial_while_st sh p e (attempts + 1) h4 = (res, a', h')"
          using run Inr unfolding step by simp
        have "frame n h3 h4"
          using frame_trial_for_st[of n al h3 p copy e 0] t al nle n3 by simp
        then have fn4: "frame n h h4" using fn frame_trans by blast
        have own4: "caller_owns n h4 p e" and p4: "array_at h4 p = array_at h p"
          and e4: "ex_view h4 e = ex_view h e"
          using frame_views[OF fn4 own] by simp_all
        have "trial_while sh (array_at h4 p) (ex_view h4 e) (attempts + 1)
            = (result_view h' res, a')"
          using "1.IH"[OF lt refl c[symmetric] h2_def refl refl a[symmetric] t[symmetric] _ _ own4 st]
            Inr False by simp
        then show ?thesis unfolding p4 e4 pstep using Inr False by simp
      qed
    qed
  qed
qed

lemma backtrack_st_end:
  "length (array_at h p) \<le> index \<Longrightarrow>
   backtrack_st (Suc depth) sh p e al us index k h = Some (Inr True, k, h)"
  by simp

lemma backtrack_st_throw:
  "\<not> length (array_at h p) \<le> index \<Longrightarrow>
   excluded_or_empty e (array_at h p ! index) h = (Builtin, h1) \<Longrightarrow>
   backtrack_st (Suc depth) sh p e al us index k h = Some (Inl TypeError, k, h1)"
  by (simp add: Let_def)

lemma backtrack_st_step:
  "\<not> length (array_at h p) \<le> index \<Longrightarrow>
   excluded_or_empty e (array_at h p ! index) h = (Ref x, h1) \<Longrightarrow>
   new_obj (Arr (array_at h p ! index # array_at h1 x)) h1 = (tmp, h2) \<Longrightarrow>
   new_obj (StrSet (set (array_at h2 tmp))) h2 = (excluded, h3) \<Longrightarrow>
   new_obj (Arr (filter (\<lambda>c. c \<notin> set_at h3 excluded \<and> c \<notin> set_at h3 us) (array_at h3 p))) h3
     = (filtered, h4) \<Longrightarrow>
   backtrack_st (Suc depth) sh p e al us index k h =
     candidates_for_st depth sh p e al us index (array_at h p ! index)
       (array_at (sort_in_place sh k filtered h4) filtered) (k + 1)
       (sort_in_place sh k filtered h4)"
  by (simp add: Let_def)

lemma candidates_for_st_step:
  "backtrack_st depth sh p e al us (index + 1) k
     (update_at us (StrSet (insert receiver (set_at (assign_at al giver receiver h) us)))
        (assign_at al giver receiver h)) = Some (r, k', h3) \<Longrightarrow>
   candidates_for_st depth sh p e al us index giver (receiver # rest) k h =
     (case r of
        Inl err \<Rightarrow> Some (Inl err, k', h3)
      | Inr True \<Rightarrow> Some (Inr True, k', h3)
      | Inr False \<Rightarrow>
          candidates_for_st depth sh p e al us index giver rest k'
            (delete_at al giver (update_at us (StrSet (set_at h3 us - {receiver})) h3)))"
  by (simp add: Let_def split: sum.splits bool.splits)

lemma candidates_for_st_None:
  "backtrack_st depth sh p e al us (index + 1) k
     (update_at us (StrSet (insert receiver (set_at (assign_at al giver receiver h) us)))
        (assign_at al giver receiver h)) = None \<Longrightarrow>
   candidates_for_st depth sh p e al us index giver (receiver # rest) k h = None"
  by (simp add: Let_def)

lemma candidates_for_step:
  "backtrack sh ps ex (i + 1)
     (s\<lparr>allocation := set_property (allocation s) (ps ! i) r, used := insert r (used s)\<rparr>)
     = res \<Longrightarrow>
   candidates_for sh ps ex i (r # rest) s =
     (case res of
        Inl e \<Rightarrow> Inl e
      | Inr (True, s2) \<Rightarrow> Inr (True, s2)
      | Inr (False, s2) \<Rightarrow>
          candidates_for sh ps ex i rest
            (s2\<lparr>used := used s2 - {r}, allocation := delete_property (allocation s2) (ps ! i)\<rparr>))"
  by (simp add: Let_def)

lemma candidates_computed:
  assumes own: "caller_owns n h p e"
    and x: "excluded_or_empty e giver h = (Ref x, h1)"
    and tmp: "new_obj (Arr (giver # array_at h1 x)) h1 = (tmp, h2)"
    and ex: "new_obj (StrSet (set (array_at h2 tmp))) h2 = (excluded, h3)"
    and fi: "new_obj (Arr (filter (\<lambda>c. c \<notin> set_at h3 excluded \<and> c \<notin> set_at h3 us)
                (array_at h3 p))) h3 = (filtered, h4)"
    and h5: "h5 = sort_in_place sh k filtered h4"
    and us: "us < next_addr h"
  shows "frame (next_addr h) h h5"
    and "\<exists>l. excluded_of (ex_view h e) giver = Names l \<and>
           array_at h5 filtered =
             sh k (filter (\<lambda>c. c \<notin> set (giver # l) \<and> c \<notin> set_at h us) (array_at h p))"
proof -
  have p: "p < next_addr h" using own by (simp add: caller_owns_def)
  have xv: "excluded_of (ex_view h e) giver = Names (array_at h1 x)"
    and f1: "frame (next_addr h) h h1"
    using excluded_or_empty_view[OF x own] by simp_all
  have m1: "next_addr h \<le> next_addr h1" using f1 by (simp add: frame_def)
  have f2: "frame (next_addr h1) h1 h2" and n2: "next_addr h2 = next_addr h1 + 1"
    using new_obj_at[OF tmp] by simp_all
  have r2: "array_at h2 tmp = giver # array_at h1 x"
    using new_obj_read(1)[OF tmp refl] by simp
  have f3: "frame (next_addr h2) h2 h3" and n3: "next_addr h3 = next_addr h2 + 1"
    using new_obj_at[OF ex] by simp_all
  have r3: "set_at h3 excluded = set (giver # array_at h1 x)"
    using new_obj_read(3)[OF ex refl] r2 by simp
  have m2: "next_addr h \<le> next_addr h2" using m1 n2 by simp
  have f03: "frame (next_addr h) h h3"
    using f1 frame_mono[OF f2 m1] frame_mono[OF f3 m2] frame_trans by blast
  have f4: "frame (next_addr h3) h3 h4" and fa: "filtered = next_addr h3"
    using new_obj_at[OF fi] by simp_all
  have m3: "next_addr h \<le> next_addr h3" using m2 n3 by simp
  have r4: "array_at h4 filtered =
      filter (\<lambda>c. c \<notin> set (giver # array_at h1 x) \<and> c \<notin> set_at h us) (array_at h p)"
    using new_obj_read(1)[OF fi refl] frame_below(1)[OF f03 p] frame_below(3)[OF f03 us]
    unfolding r3 by simp
  have f5: "frame (next_addr h) h4 h5"
    unfolding h5 sort_in_place_def using frame_update[of "next_addr h" filtered] fa m3 by simp
  show "frame (next_addr h) h h5"
    using f03 frame_mono[OF f4 m3] f5 frame_trans by blast
  have "array_at h5 filtered =
      sh k (filter (\<lambda>c. c \<notin> set (giver # array_at h1 x) \<and> c \<notin> set_at h us) (array_at h p))"
    unfolding h5 sort_in_place_def update_at_same r4 ..
  then show "\<exists>l. excluded_of (ex_view h e) giver = Names l \<and>
           array_at h5 filtered =
             sh k (filter (\<lambda>c. c \<notin> set (giver # l) \<and> c \<notin> set_at h us) (array_at h p))"
    using xv by blast
qed

lemma backtrack_st_refines:
  shows "caller_owns n h p e \<Longrightarrow> n \<le> al \<Longrightarrow> n \<le> us \<Longrightarrow> al \<noteq> us \<Longrightarrow>
         al < next_addr h \<Longrightarrow> us < next_addr h \<Longrightarrow>
         backtrack_st depth sh p e al us index k h = Some out \<Longrightarrow>
         backtrack sh (array_at h p) (ex_view h e) index (sys_view h al us k)
           = search_view al us out \<and> frame n h (snd (snd out))"
    and "caller_owns n h p e \<Longrightarrow> n \<le> al \<Longrightarrow> n \<le> us \<Longrightarrow> al \<noteq> us \<Longrightarrow>
         al < next_addr h \<Longrightarrow> us < next_addr h \<Longrightarrow> giver = array_at h p ! index \<Longrightarrow>
         candidates_for_st depth sh p e al us index giver cs k h = Some out \<Longrightarrow>
         candidates_for sh (array_at h p) (ex_view h e) index cs (sys_view h al us k)
           = search_view al us out \<and> frame n h (snd (snd out))"
proof (induction depth sh p e al us index k h and depth sh p e al us index giver cs k h
        arbitrary: out and out
        rule: backtrack_st_candidates_for_st.induct)
  case (1 sh p e al us index k h)
  then show ?case by simp
next
  case (2 depth sh p e al us index k h)
  note own = "2.prems"(1) and pr = "2.prems"(2-6) and run = "2.prems"(7)
  have nle: "n \<le> next_addr h" using own by (simp add: caller_owns_def)
  show ?case
  proof (cases "length (array_at h p) \<le> index")
    case True
    then have "out = (Inr True, k, h)" using run unfolding backtrack_st_end[OF True] by simp
    then show ?thesis using True by (simp add: backtrack_end frame_refl)
  next
    case False
    define giver where "giver = array_at h p ! index"
    obtain y h1 where x: "excluded_or_empty e giver h = (y, h1)"
      by (cases "excluded_or_empty e giver h")
    show ?thesis
    proof (cases y)
      case Builtin
      have "out = (Inl TypeError, k, h1)"
        using run backtrack_st_throw[OF False x[unfolded giver_def Builtin]] by simp
      moreover have "excluded_of (ex_view h e) (array_at h p ! index) = Inherited"
        using excluded_or_empty_view(1)[OF x own] Builtin by (simp add: giver_def)
      moreover have "frame n h h1" using x nle by (rule frame_excluded_or_empty)
      ultimately show ?thesis using backtrack_throw[OF False] by simp
    next
      case (Ref x')
      note x = x[unfolded Ref]
      obtain tmp h2 where tmp: "new_obj (Arr (giver # array_at h1 x')) h1 = (tmp, h2)"
        by (cases "new_obj (Arr (giver # array_at h1 x')) h1")
      obtain excluded h3 where ex: "new_obj (StrSet (set (array_at h2 tmp))) h2 = (excluded, h3)"
        by (cases "new_obj (StrSet (set (array_at h2 tmp))) h2")
      obtain filtered h4 where fi:
        "new_obj (Arr (filter (\<lambda>c. c \<notin> set_at h3 excluded \<and> c \<notin> set_at h3 us) (array_at h3 p))) h3
           = (filtered, h4)"
        by (cases "new_obj (Arr (filter (\<lambda>c. c \<notin> set_at h3 excluded \<and> c \<notin> set_at h3 us)
                     (array_at h3 p))) h3")
      define h5 where "h5 = sort_in_place sh k filtered h4"
      have st: "backtrack_st (Suc depth) sh p e al us index k h
          = candidates_for_st depth sh p e al us index giver (array_at h5 filtered) (k + 1) h5"
        unfolding giver_def h5_def
        by (rule backtrack_st_step[OF False x[unfolded giver_def] tmp[unfolded giver_def] ex fi])
      from candidates_computed[OF own x tmp ex fi h5_def pr(5)]
      obtain l where f: "frame (next_addr h) h h5"
        and l: "excluded_of (ex_view h e) giver = Names l"
        and cs: "array_at h5 filtered =
             sh k (filter (\<lambda>c. c \<notin> set (giver # l) \<and> c \<notin> set_at h us) (array_at h p))"
        by blast
      have fn: "frame n h h5" using f nle by (rule frame_mono)
      have own5: "caller_owns n h5 p e" and p5: "array_at h5 p = array_at h p"
        and e5: "ex_view h5 e = ex_view h e"
        using frame_views[OF fn own] by simp_all
      have a5: "rec_at h5 al = rec_at h al" "al < next_addr h5"
        using frame_below(2,4)[OF f pr(4)] by simp_all
      have u5: "set_at h5 us = set_at h us" "us < next_addr h5"
        using frame_below(3,4)[OF f pr(5)] by simp_all
      have v5: "sys_view h5 al us (k + 1) = (sys_view h al us k)\<lparr>calls := calls (sys_view h al us k) + 1\<rparr>"
        by (simp add: sys_view_def a5 u5)
      have run5: "candidates_for_st depth sh p e al us index giver (array_at h5 filtered) (k + 1) h5
          = Some out"
        using run unfolding st .
      have g5: "giver = array_at h5 p ! index" by (simp add: giver_def p5)
      have "candidates_for sh (array_at h5 p) (ex_view h5 e) index (array_at h5 filtered)
              (sys_view h5 al us (k + 1)) = search_view al us out \<and> frame n h5 (snd (snd out))"
        using "2.IH"[OF False giver_def x[symmetric] refl refl tmp[symmetric] refl ex[symmetric] refl
                fi[symmetric] h5_def refl own5 pr(1,2,3) a5(2) u5(2) g5 run5] .
      then have c: "candidates_for sh (array_at h p) (ex_view h e) index
              (sh k (filter (\<lambda>c. c \<notin> set (giver # l) \<and> c \<notin> set_at h us) (array_at h p)))
              ((sys_view h al us k)\<lparr>calls := calls (sys_view h al us k) + 1\<rparr>)
            = search_view al us out"
        and f5: "frame n h5 (snd (snd out))"
        unfolding p5 e5 cs v5 by simp_all
      have "backtrack sh (array_at h p) (ex_view h e) index (sys_view h al us k)
          = search_view al us out"
        using backtrack_step[OF False l[unfolded giver_def], of sh "sys_view h al us k"] c
        by (simp add: giver_def sys_view_def)
      then show ?thesis using fn f5 frame_trans by blast
    qed
  qed
next
  case (3 depth sh p e al us index giver k h)
  then show ?case by (auto simp: frame_refl)
next
  case (4 depth sh p e al us index giver receiver rest k h)
  note own = "4.prems"(1) and pr = "4.prems"(2-6) and g = "4.prems"(7) and run = "4.prems"(8)
  define h1 where "h1 = assign_at al giver receiver h"
  define h2 where "h2 = update_at us (StrSet (insert receiver (set_at h1 us))) h1"
  have f2: "frame n h h2"
    using frame_assign[OF pr(1)] frame_update[OF pr(2)] unfolding h1_def h2_def
    by (rule frame_trans)
  have own2: "caller_owns n h2 p e" and p2: "array_at h2 p = array_at h p"
    and e2: "ex_view h2 e = ex_view h e"
    using frame_views[OF f2 own] by simp_all
  have b2: "al < next_addr h2" "us < next_addr h2"
    using pr(4,5) by (simp_all add: h1_def h2_def assign_at_read)
  have a2: "rec_at h2 al = set_property (rec_at h al) giver receiver"
    unfolding h2_def h1_def using update_at_other(2)[OF pr(3)] by (simp add: assign_at_read)
  have u2: "set_at h2 us = insert receiver (set_at h us)"
    unfolding h2_def h1_def using assign_at_read(3)[OF pr(3)[symmetric]]
    by (simp add: update_at_same)
  have v2: "sys_view h2 al us k =
      (sys_view h al us k)\<lparr>allocation := set_property (allocation (sys_view h al us k))
                                            (array_at h p ! index) receiver,
                            used := insert receiver (used (sys_view h al us k))\<rparr>"
    by (simp add: sys_view_def a2 u2 g)
  show ?case
  proof (cases "backtrack_st depth sh p e al us (index + 1) k h2")
    case None
    then show ?thesis
      using run candidates_for_st_None[of depth sh p e al us index k receiver giver h rest]
      by (simp add: h1_def h2_def)
  next
    case (Some sub)
    obtain r k3 h3 where sub: "sub = (r, k3, h3)" by (cases sub)
    note r = Some[unfolded sub]
    have ih1: "backtrack sh (array_at h2 p) (ex_view h2 e) (index + 1) (sys_view h2 al us k)
        = search_view al us (r, k3, h3) \<and> frame n h2 (snd (snd (r, k3, h3)))"
      using "4.IH"(1)[OF h1_def h2_def own2 pr(1,2,3) b2 r] .
    then have bt: "backtrack sh (array_at h p) (ex_view h e) (index + 1) (sys_view h2 al us k)
        = search_view al us (r, k3, h3)" and f3: "frame n h2 h3"
      unfolding p2 e2 by simp_all
    note sstep = candidates_for_st_step[OF r[unfolded h2_def h1_def], of rest]
    note pstep = candidates_for_step[OF bt[unfolded v2], of rest]
    show ?thesis
    proof (cases "r = Inr False")
      case False
      then have o: "out = (r, k3, h3)"
        using run unfolding sstep by (auto split: sum.splits bool.splits)
      have "candidates_for sh (array_at h p) (ex_view h e) index (receiver # rest)
          (sys_view h al us k) = search_view al us (r, k3, h3)"
        unfolding pstep using False by (cases r) (auto split: bool.splits)
      then show ?thesis using o f2 f3 frame_trans by auto
    next
      case True
      define h4 where "h4 = update_at us (StrSet (set_at h3 us - {receiver})) h3"
      define h5 where "h5 = delete_at al giver h4"
      have f5: "frame n h3 h5"
        using frame_update[OF pr(2)] frame_delete[OF pr(1)] unfolding h4_def h5_def
        by (rule frame_trans)
      have f: "frame n h h5" using f2 f3 f5 frame_trans by blast
      have own5: "caller_owns n h5 p e" and p5: "array_at h5 p = array_at h p"
        and e5: "ex_view h5 e = ex_view h e"
        using frame_views[OF f own] by simp_all
      have "next_addr h \<le> next_addr h5" using f by (simp add: frame_def)
      then have b5: "al < next_addr h5" "us < next_addr h5" using pr(4,5) by simp_all
      have a5: "rec_at h5 al = delete_property (rec_at h3 al) giver"
        unfolding h5_def h4_def using update_at_other(2)[OF pr(3)] by (simp add: delete_at_read)
      have u5: "set_at h5 us = set_at h3 us - {receiver}"
        unfolding h5_def h4_def using delete_at_read(3)[OF pr(3)[symmetric]]
        by (simp add: update_at_same)
      have v5: "sys_view h5 al us k3 =
          (sys_view h3 al us k3)\<lparr>used := used (sys_view h3 al us k3) - {receiver},
              allocation := delete_property (allocation (sys_view h3 al us k3))
                              (array_at h p ! index)\<rparr>"
        by (simp add: sys_view_def a5 u5 g)
      have run5: "candidates_for_st depth sh p e al us index giver rest k3 h5 = Some out"
        using run True unfolding sstep by (simp add: h4_def h5_def)
      have g5: "giver = array_at h5 p ! index" using g by (simp add: p5)
      have "candidates_for sh (array_at h5 p) (ex_view h5 e) index rest (sys_view h5 al us k3)
          = search_view al us out \<and> frame n h5 (snd (snd out))"
        using "4.IH"(2)[OF h1_def h2_def r[unfolded True] refl refl _ refl h4_def h5_def own5
                pr(1,2,3) b5 g5 run5] by simp
      then have c: "candidates_for sh (array_at h p) (ex_view h e) index rest (sys_view h5 al us k3)
          = search_view al us out" and f6: "frame n h5 (snd (snd out))"
        unfolding p5 e5 by simp_all
      have "candidates_for sh (array_at h p) (ex_view h e) index (receiver # rest)
          (sys_view h al us k) = search_view al us out"
        unfolding pstep using True c unfolding v5 by simp
      then show ?thesis using f f6 frame_trans by blast
    qed
  qed
qed

lemma allocateSystematic_st_refines:
  assumes own: "caller_owns n h p e"
    and run: "allocateSystematic_st sh k p e h = Some (res, h')"
  shows "allocateSystematic sh k (array_at h p) (ex_view h e) = result_view h' res"
proof -
  have nle: "n \<le> next_addr h" using own by (simp add: caller_owns_def)
  obtain al h1 where a: "new_obj (Rec Map.empty) h = (al, h1)" by (cases "new_obj (Rec Map.empty) h")
  obtain us h2 where u: "new_obj (StrSet {}) h1 = (us, h2)" by (cases "new_obj (StrSet {}) h1")
  have al: "al = next_addr h" and n1: "next_addr h1 = next_addr h + 1"
    and f1: "frame (next_addr h) h h1"
    using new_obj_at[OF a] by simp_all
  have us: "us = next_addr h + 1" and n2: "next_addr h2 = next_addr h + 2"
    and f2: "frame (next_addr h1) h1 h2"
    using new_obj_at[OF u] n1 by simp_all
  have ra: "rec_at h2 al = Map.empty"
    using new_obj_read(2)[OF a refl] frame_below(2)[OF f2, of al] al n1 by simp
  have ru: "set_at h2 us = {}" using new_obj_read(3)[OF u refl] .
  have f2': "frame n h1 h2" using nle n1 by (intro frame_mono[OF f2]) simp
  have fn: "frame n h h2" using frame_mono[OF f1 nle] f2' by (rule frame_trans)
  have own2: "caller_owns n h2 p e" and p2: "array_at h2 p = array_at h p"
    and e2: "ex_view h2 e = ex_view h e"
    using frame_views[OF fn own] by simp_all
  have v: "sys_view h2 al us k = \<lparr>allocation = Map.empty, used = {}, calls = k\<rparr>"
    by (simp add: sys_view_def ra ru)
  obtain out where bt: "backtrack_st (length (array_at h2 p) + 1) sh p e al us 0 k h2 = Some out"
    using run a u by (auto simp: allocateSystematic_st_def split: option.splits)
  have "backtrack sh (array_at h2 p) (ex_view h2 e) 0 (sys_view h2 al us k) = search_view al us out"
    using backtrack_st_refines(1)[OF own2 _ _ _ _ _ bt] al us nle n2 by simp
  then have pb: "backtrack sh (array_at h p) (ex_view h e) 0
      \<lparr>allocation = Map.empty, used = {}, calls = k\<rparr> = search_view al us out"
    unfolding p2 e2 v .
  obtain r k' h3 where out: "out = (r, k', h3)" by (cases out)
  show ?thesis
  proof (cases r)
    case (Inl err)
    then have "res = Inl err" using run a u bt out by (simp add: allocateSystematic_st_def)
    then show ?thesis using pb out Inl by (simp add: allocateSystematic_def)
  next
    case (Inr b)
    show ?thesis
    proof (cases b)
      case True
      then have "res = Inr (Some al)" "h' = h3"
        using run a u bt out Inr by (simp_all add: allocateSystematic_st_def)
      then show ?thesis
        using pb out Inr True by (simp add: allocateSystematic_def sys_view_def)
    next
      case False
      then have "res = Inr None"
        using run a u bt out Inr by (simp add: allocateSystematic_st_def)
      then show ?thesis using pb out Inr False by (simp add: allocateSystematic_def)
    qed
  qed
qed

lemma allocateSecretSanta_st_refines:
  assumes own: "caller_owns n h p e"
    and run: "allocateSecretSanta_st sh p e h = Some (res, h')"
  shows "allocateSecretSanta sh (array_at h p) (ex_view h e) = result_view h' res"
proof (cases "length (array_at h p) < 2")
  case True
  then have "res = Inr None" using run by (simp add: allocateSecretSanta_st_def)
  then show ?thesis using True by (simp add: allocateSecretSanta_def)
next
  case False
  obtain r k h1 where t: "trial_while_st sh p e 0 h = (r, k, h1)"
    by (cases "trial_while_st sh p e 0 h")
  have pt: "trial_while sh (array_at h p) (ex_view h e) 0 = (result_view h1 r, k)"
    using own t by (rule trial_while_st_refines)
  show ?thesis
  proof (cases "r = Inr None")
    case ne: False
    then have "res = r" "h' = h1"
      using run False t by (auto simp: allocateSecretSanta_st_def split: sum.splits option.splits)
    moreover have "allocateSecretSanta sh (array_at h p) (ex_view h e) = result_view h1 r"
    proof (cases r)
      case (Inl err)
      then show ?thesis using False pt by (simp add: allocateSecretSanta_def)
    next
      case (Inr opt)
      then obtain al where "r = Inr (Some al)" using ne by (cases opt) simp_all
      then show ?thesis using False pt by (simp add: allocateSecretSanta_def)
    qed
    ultimately show ?thesis by simp
  next
    case True
    then have s: "allocateSystematic_st sh k p e h1 = Some (res, h')"
      using run False t by (simp add: allocateSecretSanta_st_def)
    have nle: "n \<le> next_addr h" using own by (simp add: caller_owns_def)
    have "frame n h h1" using frame_trial_while_st[OF nle, of sh p e 0] t by simp
    then have own1: "caller_owns n h1 p e" and p1: "array_at h1 p = array_at h p"
      and e1: "ex_view h1 e = ex_view h e"
      using frame_views[OF _ own] by simp_all
    have "allocateSystematic sh k (array_at h1 p) (ex_view h1 e) = result_view h' res"
      using own1 s by (rule allocateSystematic_st_refines)
    then show ?thesis
      unfolding p1 e1 using False pt True by (simp add: allocateSecretSanta_def)
  qed
qed

text \<open>
  C9. A call of \<open>allocateSecretSanta\<close> on a store that holds the participants array
  comes back, with a result or with an exception, and every object that the store held
  before the call is the same after it: the participants array with its names in their
  order, the exclusions record, and the arrays that the record refers to. The engine
  sorts only copies and writes only to objects that it has made itself. What comes back
  is what the function on values gives for the names and the exclusions that the
  arguments hold and for the same outcomes of the sorts: beyond those, nothing in the
  store has a part in it.
\<close>

theorem arguments_left_unchanged:
  assumes "p < next_addr h"
  shows "\<exists>res h'. allocateSecretSanta_st sh p e h = Some (res, h') \<and>
           next_addr h \<le> next_addr h' \<and>
           (\<forall>a. a < next_addr h \<longrightarrow> objs h' a = objs h a) \<and>
           (caller_owns (next_addr h) h p e \<longrightarrow>
              allocateSecretSanta sh (array_at h p) (ex_view h e) = result_view h' res)"
proof -
  have "\<exists>res h'. allocateSecretSanta_st sh p e h = Some (res, h') \<and> frame (next_addr h) h h'"
  proof (cases "length (array_at h p) < 2")
    case True
    then show ?thesis by (simp add: allocateSecretSanta_st_def frame_refl)
  next
    case False
    obtain r k h1 where t: "trial_while_st sh p e 0 h = (r, k, h1)"
      by (cases "trial_while_st sh p e 0 h")
    have f1: "frame (next_addr h) h h1"
      using frame_trial_while_st[of "next_addr h" h sh p e 0] t by simp
    show ?thesis
    proof (cases "r = Inr None")
      case False
      then show ?thesis using \<open>\<not> length (array_at h p) < 2\<close> t f1
        by (auto simp: allocateSecretSanta_st_def split: sum.splits option.splits)
    next
      case True
      have "next_addr h \<le> next_addr h1" using f1 by (simp add: frame_def)
      from allocateSystematic_st_returns[OF this assms, of sh k e]
      obtain res h' where "allocateSystematic_st sh k p e h1 = Some (res, h')"
        and "frame (next_addr h) h1 h'" by blast
      then show ?thesis
        using False t True f1 frame_trans by (auto simp: allocateSecretSanta_st_def)
    qed
  qed
  then obtain res h' where r: "allocateSecretSanta_st sh p e h = Some (res, h')"
    and f: "frame (next_addr h) h h'" by blast
  have "allocateSecretSanta sh (array_at h p) (ex_view h e) = result_view h' res"
    if "caller_owns (next_addr h) h p e"
    using that r by (rule allocateSecretSanta_st_refines)
  then show ?thesis using r f by (auto simp: frame_def)
qed

lemma example_store_inherited_throws:
  "\<exists>h'. allocateSecretSanta_st (\<lambda>k. rev) 0 1 example_store_inherited
          = Some (Inl TypeError, h')"
  by (simp add: allocateSecretSanta_st_def example_store_inherited_def array_at_def
        trial_while_st.simps[of _ _ _ 0] maxAttempts_def spread_copy_def new_obj_def
        sort_in_place_def update_at_def trial_for_st.simps[of _ _ _ _ 0] Let_def
        excluded_or_empty_def excl_at_def object_prototype_names_def js_def)

theorem arguments_left_unchanged_witness:
  "(0::nat) < next_addr example_store \<and> caller_owns (next_addr example_store) example_store 0 1 \<and>
   (\<exists>res h'. allocateSecretSanta_st (\<lambda>k. rev) 0 1 example_store = Some (res, h') \<and>
      objs h' 0 = Some (Arr [js ''A'', js ''B'', js ''C'']) \<and>
      objs h' 1 = Some (Excl [js ''A'' \<mapsto> 2]) \<and>
      objs h' 2 = Some (Arr [js ''B'']) \<and>
      allocateSecretSanta (\<lambda>k. rev) [js ''A'', js ''B'', js ''C''] (ex_view example_store 1)
        = result_view h' res) \<and>
   (0::nat) < next_addr example_store_inherited \<and>
   caller_owns (next_addr example_store_inherited) example_store_inherited 0 1 \<and>
   (\<exists>h'. allocateSecretSanta_st (\<lambda>k. rev) 0 1 example_store_inherited
            = Some (Inl TypeError, h') \<and>
      objs h' 0 = Some (Arr [js ''constructor'', js ''B'']) \<and>
      objs h' 1 = Some (Excl Map.empty) \<and>
      allocateSecretSanta (\<lambda>k. rev) [js ''constructor'', js ''B'']
        (ex_view example_store_inherited 1) = Inl TypeError)"
proof -
  have l: "(0::nat) < next_addr example_store" by (simp add: example_store_def)
  have o: "caller_owns (next_addr example_store) example_store 0 1"
    by (simp add: caller_owns_def example_store_def excl_at_def)
  have ps: "array_at example_store 0 = [js ''A'', js ''B'', js ''C'']"
    by (simp add: example_store_def array_at_def)
  from arguments_left_unchanged[OF l, of "\<lambda>k. rev" 1]
  obtain res h' where r: "allocateSecretSanta_st (\<lambda>k. rev) 0 1 example_store = Some (res, h')"
    and f: "\<forall>a. a < next_addr example_store \<longrightarrow> objs h' a = objs example_store a"
    and v: "caller_owns (next_addr example_store) example_store 0 1 \<longrightarrow>
              allocateSecretSanta (\<lambda>k. rev) (array_at example_store 0) (ex_view example_store 1)
                = result_view h' res"
    by blast
  have "objs h' 0 = objs example_store 0" "objs h' 1 = objs example_store 1"
    "objs h' 2 = objs example_store 2"
    using f by (simp_all add: example_store_def)
  then have "objs h' 0 = Some (Arr [js ''A'', js ''B'', js ''C''])"
    "objs h' 1 = Some (Excl [js ''A'' \<mapsto> 2])" "objs h' 2 = Some (Arr [js ''B''])"
    by (simp_all add: example_store_def)
  moreover have "allocateSecretSanta (\<lambda>k. rev) [js ''A'', js ''B'', js ''C'']
      (ex_view example_store 1) = result_view h' res"
    using v o unfolding ps by simp
  ultimately have first: "\<exists>res h'. allocateSecretSanta_st (\<lambda>k. rev) 0 1 example_store = Some (res, h') \<and>
      objs h' 0 = Some (Arr [js ''A'', js ''B'', js ''C'']) \<and>
      objs h' 1 = Some (Excl [js ''A'' \<mapsto> 2]) \<and>
      objs h' 2 = Some (Arr [js ''B'']) \<and>
      allocateSecretSanta (\<lambda>k. rev) [js ''A'', js ''B'', js ''C''] (ex_view example_store 1)
        = result_view h' res"
    using r by blast
  have l2: "(0::nat) < next_addr example_store_inherited"
    by (simp add: example_store_inherited_def)
  have o2: "caller_owns (next_addr example_store_inherited) example_store_inherited 0 1"
    by (simp add: caller_owns_def example_store_inherited_def excl_at_def)
  have ps2: "array_at example_store_inherited 0 = [js ''constructor'', js ''B'']"
    by (simp add: example_store_inherited_def array_at_def)
  from arguments_left_unchanged[OF l2, of "\<lambda>k. rev" 1]
  obtain res2 h2 where r2: "allocateSecretSanta_st (\<lambda>k. rev) 0 1 example_store_inherited
        = Some (res2, h2)"
    and f2: "\<forall>a. a < next_addr example_store_inherited
               \<longrightarrow> objs h2 a = objs example_store_inherited a"
    and v2: "caller_owns (next_addr example_store_inherited) example_store_inherited 0 1 \<longrightarrow>
              allocateSecretSanta (\<lambda>k. rev) (array_at example_store_inherited 0)
                (ex_view example_store_inherited 1) = result_view h2 res2"
    by blast
  have t: "res2 = Inl TypeError" using r2 example_store_inherited_throws by auto
  have "objs h2 0 = objs example_store_inherited 0" "objs h2 1 = objs example_store_inherited 1"
    using f2 by (simp_all add: example_store_inherited_def)
  then have "objs h2 0 = Some (Arr [js ''constructor'', js ''B''])"
    "objs h2 1 = Some (Excl Map.empty)"
    by (simp_all add: example_store_inherited_def)
  moreover have "allocateSecretSanta (\<lambda>k. rev) [js ''constructor'', js ''B'']
        (ex_view example_store_inherited 1) = Inl TypeError"
    using v2 o2 unfolding ps2 t by simp
  ultimately have second: "\<exists>h'. allocateSecretSanta_st (\<lambda>k. rev) 0 1 example_store_inherited
            = Some (Inl TypeError, h') \<and>
      objs h' 0 = Some (Arr [js ''constructor'', js ''B'']) \<and>
      objs h' 1 = Some (Excl Map.empty) \<and>
      allocateSecretSanta (\<lambda>k. rev) [js ''constructor'', js ''B'']
        (ex_view example_store_inherited 1) = Inl TypeError"
    using r2 t by blast
  show ?thesis using l o first l2 o2 second by blast
qed

end
